theory Spec2Isabelle
  imports Main "HOL-Library.Word" "HOL-Library.Sublist"
begin

unbundle bit_operations_syntax

section \<open>Values shared by the command-line tools\<close>

text \<open>
  A byte of a capture file is an 8-bit word. Python integers are unbounded and are
  modelled as \<open>int\<close>; sizes and line numbers that index the input are \<open>nat\<close>.
\<close>

type_synonym byte = "8 word"

text \<open>
  The exceptions the modelled code can raise. \<open>UsageError\<close> is click's, carrying its
  message; \<open>ModuleNotFoundError\<close> carries the attributes \<open>name\<close> and \<open>msg\<close> the
  handlers of \<open>spellcheck\<close> and \<open>vbiview\<close> read.
\<close>

datatype exn =
    UsageError string
  | KeyboardInterrupt
  | TypeError
  | ValueError
  | IndexError
  | AttributeError
  | StructError
  | ModuleNotFoundError "string option" string

text \<open>Python's \<open>xs[a:b]\<close> and \<open>xs[-n:]\<close> for non-negative \<open>a\<close>, \<open>b\<close>, \<open>n\<close>: slices never raise.\<close>

definition py_slice :: "nat \<Rightarrow> nat \<Rightarrow> 'a list \<Rightarrow> 'a list" where
  "py_slice a b xs = drop a (take b xs)"

definition py_last :: "nat \<Rightarrow> 'a list \<Rightarrow> 'a list" where
  "py_last n xs = drop (length xs - n) xs"


text \<open>Running a fallible step over a list, stopping at the first exception.\<close>

fun collect :: "('a \<Rightarrow> exn + 'b) \<Rightarrow> 'a list \<Rightarrow> exn + 'b list" where
  "collect f [] = Inr []"
| "collect f (x # xs) =
     (case f x of
        Inl e \<Rightarrow> Inl e
      | Inr y \<Rightarrow> (case collect f xs of Inl e \<Rightarrow> Inl e | Inr ys \<Rightarrow> Inr (y # ys)))"

subsection \<open>Text formatting: \<open>str\<close>, \<open>hex\<close>, \<open>bytes.hex\<close>, \<open>print\<close>\<close>

definition digit_char :: "nat \<Rightarrow> char" where
  "digit_char d = ''0123456789abcdef'' ! d"

function digits_of :: "nat \<Rightarrow> nat \<Rightarrow> string" where
  "digits_of b n =
     (if b < 2 \<or> n < b then [digit_char n]
      else digits_of b (n div b) @ [digit_char (n mod b)])"
  by pat_completeness auto
termination
  by (relation "measure (\<lambda>(b, n). n)") auto

definition py_str :: "int \<Rightarrow> string" where
  "py_str i = (if i < 0 then ''-'' @ digits_of 10 (nat (- i)) else digits_of 10 (nat i))"





definition newline :: string where
  "newline = [CHR 0x0A]"

section \<open>FileChunker\<close>

text \<open>
  Modelled from the spec: \<open>FileChunker\<close>, whose module \<open>teletext/file.py\<close> is not among
  the sources; \<open>cli.py\<close> only calls it. The spec (4.8) gives its inputs as a readable byte
  stream, \<open>chunk_size\<close>, \<open>start\<close>, \<open>stop\<close>, \<open>step\<close>, \<open>limit\<close> and says it emits a lazy
  sequence of \<open>(index, bytes[chunk_size])\<close> where \<open>index\<close> starts at \<open>start\<close>, increments
  by \<open>step\<close>, halts at \<open>stop\<close> or after \<open>limit\<close> chunks (whichever first), and at EOF;
  short final chunks are discarded. The spec (8) fixes where the sequence halts: it emits
  \<open>floor((stop - start) / step)\<close> chunks when nothing else ends it, so the chunk at
  \<open>index\<close> is emitted when a whole step from it still ends at or before \<open>stop\<close>
  (\<open>index + step \<le> stop\<close>); for a step of 1 these are the chunks before the \<open>stop\<close>-th.
  The option help of \<open>chunkreader\<close> in \<open>cli.py\<close> (start at the Nth line, stop before the
  Nth line, process every Nth line, stop after processing N lines) makes the index the
  number of the chunk in the file: chunk \<open>idx\<close> is the bytes from \<open>idx * chunk_size\<close> up to
  \<open>(idx + 1) * chunk_size\<close>.

  The byte stream is a finite list, the lazy sequence is the list of what it yields.
  \<open>stop\<close> and \<open>limit\<close> are optional (\<open>None\<close> when not given). The spec gives no meaning to
  a zero \<open>chunk_size\<close> or \<open>step\<close>, nor to negative arguments; the model takes naturals and
  emits nothing for a zero \<open>chunk_size\<close> or \<open>step\<close>.
\<close>

function chunks_from ::
  "byte list \<Rightarrow> nat \<Rightarrow> nat option \<Rightarrow> nat \<Rightarrow> nat option \<Rightarrow> nat \<Rightarrow> nat \<Rightarrow> (nat \<times> byte list) list"
where
  "chunks_from inp chunk_size stop step limit emitted idx =
     (if chunk_size = 0 \<or> step = 0 then []
      else if (case stop of None \<Rightarrow> False | Some st \<Rightarrow> st < idx + step) then []
      else if (case limit of None \<Rightarrow> False | Some l \<Rightarrow> l \<le> emitted) then []
      else if length inp < (idx + 1) * chunk_size then []
      else (idx, take chunk_size (drop (idx * chunk_size) inp))
             # chunks_from inp chunk_size stop step limit (Suc emitted) (idx + step))"
  by pat_completeness auto
termination
proof (relation "measure (\<lambda>(inp, chunk_size, stop, step, limit, emitted, idx). length inp - idx * chunk_size)")
  show "wf (measure (\<lambda>(inp, chunk_size, stop, step, limit, emitted, idx). length inp - idx * chunk_size))"
    by simp
next
  fix inp :: "byte list" and chunk_size step emitted idx :: nat
    and stop limit :: "nat option"
  assume a: "\<not> (chunk_size = 0 \<or> step = 0)" and b: "\<not> length inp < (idx + 1) * chunk_size"
  have "idx * chunk_size < (idx + step) * chunk_size"
    using a by simp
  moreover have "idx * chunk_size + chunk_size \<le> length inp"
    using b by simp
  ultimately have "length inp - (idx + step) * chunk_size < length inp - idx * chunk_size"
    using a by (simp add: diff_less_mono2)
  then show "((inp, chunk_size, stop, step, limit, Suc emitted, idx + step),
              (inp, chunk_size, stop, step, limit, emitted, idx))
             \<in> measure (\<lambda>(inp, chunk_size, stop, step, limit, emitted, idx). length inp - idx * chunk_size)"
    by simp
qed

definition FileChunker ::
  "byte list \<Rightarrow> nat \<Rightarrow> nat \<Rightarrow> nat option \<Rightarrow> nat \<Rightarrow> nat option \<Rightarrow> (nat \<times> byte list) list"
where
  "FileChunker inp chunk_size start stop step limit = chunks_from inp chunk_size stop step limit 0 start"

text \<open>
  Third-party \<open>tqdm\<close> wraps an iterable in a progress bar and yields its items unchanged.
\<close>

definition tqdm :: "'a list \<Rightarrow> 'a list" where
  "tqdm xs = xs"

text \<open>
  Modelled from the spec: the statistics taps \<open>MagHistogram\<close>, \<open>RowHistogram\<close>,
  \<open>ErrorHistogram\<close> and \<open>Rejects\<close> (\<open>teletext/stats.py\<close> is not among the sources).
  The spec (4.7): each element passes through unchanged while the tap updates internal
  counters. The counters are not modelled. A command registers each tap with
  \<open>chunks.postfix.append\<close>; the \<open>postfix\<close> of a \<open>tqdm\<close> bar is \<open>None\<close> until the
  command assigns a \<open>StatsList\<close> to it, and appending to \<open>None\<close> raises
  \<open>AttributeError\<close>.
\<close>

definition MagHistogram :: "'a list \<Rightarrow> 'a list" where
  "MagHistogram xs = xs"

definition RowHistogram :: "'a list \<Rightarrow> 'a list" where
  "RowHistogram xs = xs"

definition ErrorHistogram :: "'a list \<Rightarrow> 'a list" where
  "ErrorHistogram xs = xs"

definition Rejects :: "'a list \<Rightarrow> 'a list" where
  "Rejects xs = xs"

text \<open>
  A flag of the command line is \<open>True\<close>, \<open>False\<close> or \<open>None\<close>; \<open>if flag:\<close> takes it
  when it is \<open>True\<close>.
\<close>

definition truthy :: "bool option \<Rightarrow> bool" where
  "truthy flag = (flag = Some True)"

text \<open>
  A stream that the user may interrupt: \<open>Interrupt\<close> stands for the \<open>KeyboardInterrupt\<close>
  raised while the consumer waits for the next item. \<open>interruptible (Some k) xs\<close> is the
  stream \<open>xs\<close> with Ctrl-C pressed after \<open>k\<close> items, \<open>interruptible None xs\<close> the
  stream left alone.
\<close>

datatype 'a event = Item 'a | Interrupt

definition interruptible :: "nat option \<Rightarrow> 'a list \<Rightarrow> 'a event list" where
  "interruptible sigint xs =
     (case sigint of None \<Rightarrow> map Item xs | Some k \<Rightarrow> map Item (take k xs) @ [Interrupt])"

section \<open>Packets, lines and the capture configuration\<close>

text \<open>
  The classes \<open>Packet\<close> (\<open>teletext/packet.py\<close>), \<open>Line\<close> (\<open>teletext/vbi/line.py\<close>) and
  \<open>Config\<close> (\<open>teletext/vbi/config.py\<close>) are not among the sources. Of a packet the code
  reads \<open>p._array\<close>, the payload it was built from, and \<open>p.mrag.magazine\<close> and
  \<open>p.mrag.row\<close>; the packet is the record of what its constructor is given, and the MRAG
  decode is the parameter \<open>mrag_of\<close> of every function that reads it. Of a configuration
  the code reads \<open>line_length\<close>.
\<close>

record mrag =
  magazine :: int
  row :: int

record packet =
  array :: "byte list"
  number :: int

record config =
  line_length :: nat

type_synonym chunk = "nat \<times> byte list"

text \<open>
  \<open>FileChunker\<close> yields Python tuples \<open>(number, data)\<close>. Where the code slices or
  unpacks a chunk it handles the tuple, a sequence of two values: \<open>t[:n]\<close> on a tuple
  keeps its first \<open>n\<close> elements, and \<open>number, data = t\<close> needs exactly two.
\<close>

datatype pyval = PyInt int | PyBytes "byte list"

definition chunk_tuple :: "chunk \<Rightarrow> pyval list" where
  "chunk_tuple c = [PyInt (int (fst c)), PyBytes (snd c)]"

definition tuple_slice_to :: "nat \<Rightarrow> pyval list \<Rightarrow> pyval list" where
  "tuple_slice_to n t = take n t"

definition unpack2 :: "pyval list \<Rightarrow> exn + (pyval \<times> pyval)" where
  "unpack2 t = (case t of [a, b] \<Rightarrow> Inr (a, b) | _ \<Rightarrow> Inl ValueError)"

definition Packet :: "pyval \<Rightarrow> pyval \<Rightarrow> exn + packet" where
  "Packet data num =
     (case (data, num) of
        (PyBytes bs, PyInt n) \<Rightarrow> Inr \<lparr>array = bs, number = n\<rparr>
      | _ \<Rightarrow> Inl TypeError)"

text \<open>
  Of a line the commands use the constructor \<open>Line(chunk, number, extra_roll=...)\<close>, the
  flag \<open>is_teletext\<close> and the two bit recoveries. The signal processing is not modelled:
  \<open>sliced\<close> and \<open>deconvolved\<close> stand for the recovery of the 45 bytes and the check of
  the framing code, giving the packet of bytes 3 to 45 or \<open>None\<close>.
\<close>

record 'l line_class =
  new_line :: "byte list \<Rightarrow> nat \<Rightarrow> int \<Rightarrow> 'l"
  is_teletext :: "'l \<Rightarrow> bool"
  sliced :: "'l \<Rightarrow> packet option"
  deconvolved :: "'l \<Rightarrow> packet option"

text \<open>
  Modelled from the spec: \<open>Line.slice\<close> and \<open>Line.deconvolve\<close> (\<open>teletext/vbi/line.py\<close>
  is not among the sources). The spec (4.3): both return an optional packet, \<open>None\<close> when
  the framing code is not found; decode MRAG; if \<open>magazine \<notin> mags\<close> or \<open>row \<notin> rows\<close>,
  return \<open>None\<close>; otherwise return the packet. MRAG filtering and framing behave in
  \<open>deconvolve\<close> as in \<open>slice\<close>.
\<close>

definition line_slice ::
  "'l line_class \<Rightarrow> (packet \<Rightarrow> mrag) \<Rightarrow> 'l \<Rightarrow> int list \<Rightarrow> int list \<Rightarrow> packet option"
where
  "line_slice L mrag_of l mags rows =
     (case sliced L l of
        None \<Rightarrow> None
      | Some p \<Rightarrow>
          if magazine (mrag_of p) \<notin> set mags \<or> row (mrag_of p) \<notin> set rows then None
          else Some p)"

definition line_deconvolve ::
  "'l line_class \<Rightarrow> (packet \<Rightarrow> mrag) \<Rightarrow> 'l \<Rightarrow> int list \<Rightarrow> int list \<Rightarrow> packet option"
where
  "line_deconvolve L mrag_of l mags rows =
     (case deconvolved L l of
        None \<Rightarrow> None
      | Some p \<Rightarrow>
          if magazine (mrag_of p) \<notin> set mags \<or> row (mrag_of p) \<notin> set rows then None
          else Some p)"

section \<open>The decorators of \<open>cli.py\<close>\<close>

text \<open>
  A decorator takes the command \<open>f\<close> it wraps and the options it declares; the options it
  does not read itself pass through as \<open>kwargs\<close>. The input file is what the wrapper asks
  of it: whether it is a terminal, whether it is a FIFO, and its bytes.
\<close>

record input_file =
  isatty :: bool
  is_fifo :: bool
  contents :: "byte list"

text \<open>
  \<open>carduser\<close> builds the configuration from the card and the overrides and hands it to
  the command.
\<close>

definition carduser ::
  "(string \<Rightarrow> 'o \<Rightarrow> config) \<Rightarrow> (config \<Rightarrow> 'k \<Rightarrow> exn + 'r) \<Rightarrow> string \<Rightarrow> 'o \<Rightarrow> 'k \<Rightarrow> exn + 'r"
where
  "carduser Config f card_name overrides kwargs = f (Config card_name overrides) kwargs"

text \<open>
  \<open>chunkreader\<close>, lines 87 to 98. \<open>progress\<close> is \<open>None\<close> when the command has no such
  option, \<open>Some None\<close> when the option is \<open>None\<close>.
\<close>

definition chunkreader ::
  "((nat \<Rightarrow> chunk list) \<Rightarrow> bool option option \<Rightarrow> 'k \<Rightarrow> exn + 'r) \<Rightarrow>
   input_file \<Rightarrow> nat \<Rightarrow> nat option \<Rightarrow> nat \<Rightarrow> nat option \<Rightarrow> bool option option \<Rightarrow> 'k \<Rightarrow> exn + 'r"
where
  "chunkreader f inp start stop step limit progress kwargs =
     (if isatty inp then Inl (UsageError ''No input file and stdin is a tty - exiting.'')
      else
        let progress1 = (if progress = Some None \<and> is_fifo inp then Some (Some False) else progress);
            chunker = (\<lambda>chunk_size. FileChunker (contents inp) chunk_size start stop step limit)
        in f chunker progress1 kwargs)"

text \<open>
  \<open>packetreader\<close>, lines 108 to 137. The streams are generators, so the wrapper runs to
  its end before a chunk is read: the \<open>AttributeError\<close> of line 135, raised where
  \<open>--err-hist\<close> is on and the \<open>StatsList\<close> of line 122 was not assigned, comes before any
  exception of the stream. Lines 129 and 132 append only where it was assigned. First the
  chunks the wrapper reads (lines 110 to 114).
\<close>

definition reader_chunks :: "(nat \<Rightarrow> chunk list) \<Rightarrow> bool \<Rightarrow> pyval list list" where
  "reader_chunks chunker wst =
     (if wst then map (tuple_slice_to 42) (map chunk_tuple (chunker 43))
      else map chunk_tuple (chunker 42))"

text \<open>Line 124: \<open>Packet(data, number) for number, data in chunks\<close>.\<close>

definition make_packets :: "pyval list list \<Rightarrow> exn + packet list" where
  "make_packets chunks =
     collect (\<lambda>c. case unpack2 c of Inl e \<Rightarrow> Inl e | Inr (num, data) \<Rightarrow> Packet data num) chunks"

definition packetreader_wrapper ::
  "(packet \<Rightarrow> mrag) \<Rightarrow> (packet list \<Rightarrow> 'k \<Rightarrow> exn + 'r) \<Rightarrow> (nat \<Rightarrow> chunk list) \<Rightarrow> bool \<Rightarrow>
   int list \<Rightarrow> int list \<Rightarrow> bool option \<Rightarrow> bool option \<Rightarrow> bool option \<Rightarrow> bool option \<Rightarrow> 'k \<Rightarrow> exn + 'r"
where
  "packetreader_wrapper mrag_of f chunker wst mags rows progress mag_hist row_hist err_hist kwargs =
     (let chunks = reader_chunks chunker wst;
          progress1 = (if progress = None then Some True else progress);
          chunks1 = (if truthy progress1 then tqdm chunks else chunks);
          stats_list = (truthy progress1 \<and> (truthy mag_hist \<or> truthy row_hist))
      in if truthy progress1 \<and> truthy err_hist \<and> \<not> stats_list then Inl AttributeError
         else
         case make_packets chunks1 of
           Inl e \<Rightarrow> Inl e
         | Inr packets \<Rightarrow>
             let packets1 = filter (\<lambda>p. magazine (mrag_of p) \<in> set mags \<and> row (mrag_of p) \<in> set rows) packets;
                 packets2 = (if truthy progress1 \<and> truthy mag_hist then MagHistogram packets1 else packets1);
                 packets3 = (if truthy progress1 \<and> truthy row_hist then RowHistogram packets2 else packets2);
                 packets4 = (if truthy progress1 \<and> truthy err_hist then ErrorHistogram packets3 else packets3)
             in f packets4 kwargs)"

text \<open>
  \<open>packetreader\<close> is \<open>chunkreader\<close> applied to that wrapper, whose options \<open>--wst\<close>,
  \<open>-m\<close>, \<open>-r\<close> and the progress options reach it through \<open>chunkreader\<close>.
\<close>

definition packetreader ::
  "(packet \<Rightarrow> mrag) \<Rightarrow> (packet list \<Rightarrow> 'k \<Rightarrow> exn + 'r) \<Rightarrow>
   input_file \<Rightarrow> nat \<Rightarrow> nat option \<Rightarrow> nat \<Rightarrow> nat option \<Rightarrow> bool \<Rightarrow>
   int list \<Rightarrow> int list \<Rightarrow> bool option \<Rightarrow> bool option \<Rightarrow> bool option \<Rightarrow> bool option \<Rightarrow> 'k \<Rightarrow> exn + 'r"
where
  "packetreader mrag_of f inp start stop step limit wst mags rows progress mag_hist row_hist err_hist kwargs =
     chunkreader
       (\<lambda>chunker progress1 kwargs1.
          case progress1 of
            None \<Rightarrow> Inl TypeError
          | Some p \<Rightarrow> packetreader_wrapper mrag_of f chunker wst mags rows p mag_hist row_hist err_hist kwargs1)
       inp start stop step limit (Some progress) kwargs"

text \<open>
  \<open>packetwriter\<close>, lines 148 to 161. \<open>pipeline.to_file\<close> (\<open>teletext/pipeline.py\<close>,
  not among the sources) is the parameter \<open>to_file\<close>, a stage from the stream to the
  stream. The wrapper then drains the stream: \<open>for p in packets: pass\<close>, with no
  handler around it. The stream is lazy, so Ctrl-C pressed after \<open>sigint\<close> packets
  reaches the command while the loop pulls the next one.
\<close>

record out_file =
  o_isatty :: bool

fun drain :: "'a event list \<Rightarrow> exn + unit" where
  "drain [] = Inr ()"
| "drain (Item x # es) = drain es"
| "drain (Interrupt # es) = Inl KeyboardInterrupt"

definition packetwriter ::
  "('p event list \<Rightarrow> out_file \<Rightarrow> string \<Rightarrow> 'p event list) \<Rightarrow>
   (bool option option \<Rightarrow> 'k \<Rightarrow> exn + 'p list) \<Rightarrow> nat option \<Rightarrow>
   (string \<times> out_file) list \<Rightarrow> bool option option \<Rightarrow> 'k \<Rightarrow> exn + unit"
where
  "packetwriter to_file f sigint outputs progress kwargs =
     (let progress1 =
            (if progress = Some None \<and> list_ex (\<lambda>(attr, o1). o_isatty o1) outputs
             then Some (Some False) else progress)
      in case f progress1 kwargs of
           Inl e \<Rightarrow> Inl e
         | Inr packets \<Rightarrow>
             drain (foldl (\<lambda>ps (attr, o1). to_file ps o1 attr) (interruptible sigint packets) outputs))"

section \<open>The commands of \<open>cli.py\<close>\<close>

subsection \<open>\<open>filter\<close> and \<open>squash\<close>\<close>

text \<open>
  \<open>{int(x, 16) for x in xs}\<close>. Python's \<open>int(x, 16)\<close> is the parameter \<open>int16\<close>,
  \<open>None\<close> where it raises \<open>ValueError\<close>.
\<close>

definition hex_set :: "(string \<Rightarrow> int option) \<Rightarrow> string list \<Rightarrow> exn + int set" where
  "hex_set int16 xs =
     (case collect (\<lambda>x. case int16 x of None \<Rightarrow> Inl ValueError | Some v \<Rightarrow> Inr v) xs of
        Inl e \<Rightarrow> Inl e
      | Inr vs \<Rightarrow> Inr (set vs))"

text \<open>
  Lines 182 to 186 and 211 to 214: the accepted pages, and whether any were given.
  \<open>range(0x900)\<close> is the half-open interval from 0.
\<close>

definition pages_arg :: "(string \<Rightarrow> int option) \<Rightarrow> string list option \<Rightarrow> exn + (int set \<times> bool)" where
  "pages_arg int16 pages =
     (if pages = None \<or> length (case pages of Some ps \<Rightarrow> ps | None \<Rightarrow> []) = 0
      then Inr ({0..<0x900}, False)
      else case hex_set int16 (case pages of Some ps \<Rightarrow> ps | None \<Rightarrow> []) of
             Inl e \<Rightarrow> Inl e
           | Inr s \<Rightarrow> Inr (s, True))"

text \<open>Lines 188 to 192 and 216 to 219: the accepted subpages.\<close>

definition subpages_arg :: "(string \<Rightarrow> int option) \<Rightarrow> string list option \<Rightarrow> exn + (int set \<times> bool)" where
  "subpages_arg int16 subpages =
     (if subpages = None \<or> length (case subpages of Some ps \<Rightarrow> ps | None \<Rightarrow> []) = 0
      then Inr ({0..<0x3f7f}, False)
      else case hex_set int16 (case subpages of Some ps \<Rightarrow> ps | None \<Rightarrow> []) of
             Inl e \<Rightarrow> Inl e
           | Inr s \<Rightarrow> Inr (s, True))"

text \<open>
  \<open>filter\<close>, lines 178 to 198. \<open>pipeline.paginate\<close> (\<open>teletext/pipeline.py\<close>, not among
  the sources) is the parameter \<open>pipeline_paginate\<close>: from the packets and the accepted
  pages and subpages to the packet lists of the subpages.
\<close>

definition filter_cmd ::
  "(packet list \<Rightarrow> int set \<Rightarrow> int set \<Rightarrow> packet list list) \<Rightarrow> (string \<Rightarrow> int option) \<Rightarrow>
   packet list \<Rightarrow> string list option \<Rightarrow> string list option \<Rightarrow> bool \<Rightarrow> exn + packet list"
where
  "filter_cmd pipeline_paginate int16 packets pages subpages paginate =
     (case pages_arg int16 pages of
        Inl e \<Rightarrow> Inl e
      | Inr (pages1, given1) \<Rightarrow>
          (case subpages_arg int16 subpages of
             Inl e \<Rightarrow> Inl e
           | Inr (subpages1, given2) \<Rightarrow>
               if paginate \<or> given1 \<or> given2
               then Inr (concat (pipeline_paginate packets pages1 subpages1))
               else Inr packets))"

text \<open>
  \<open>squash\<close>, lines 207 to 225. \<open>pipeline.subpage_squash\<close> and the \<open>packets\<close> of a
  subpage are parameters as well.
\<close>

definition squash ::
  "(packet list \<Rightarrow> int set \<Rightarrow> int set \<Rightarrow> packet list list) \<Rightarrow>
   (packet list list \<Rightarrow> int \<Rightarrow> 's list) \<Rightarrow> ('s \<Rightarrow> packet list) \<Rightarrow> (string \<Rightarrow> int option) \<Rightarrow>
   packet list \<Rightarrow> int \<Rightarrow> string list option \<Rightarrow> string list option \<Rightarrow> exn + packet list"
where
  "squash pipeline_paginate subpage_squash sp_packets int16 packets min_duplicates pages subpages =
     (case pages_arg int16 pages of
        Inl e \<Rightarrow> Inl e
      | Inr (pages1, given1) \<Rightarrow>
          (case subpages_arg int16 subpages of
             Inl e \<Rightarrow> Inl e
           | Inr (subpages1, given2) \<Rightarrow>
               Inr (concat (map sp_packets
                     (subpage_squash (pipeline_paginate packets pages1 subpages1) min_duplicates)))))"

subsection \<open>\<open>pipeline.paginate\<close>\<close>

text \<open>
  Modelled from the spec: \<open>pipeline.paginate\<close>, whose module \<open>teletext/pipeline.py\<close> is
  not among the sources; \<open>filter\<close> and \<open>squash\<close> only call it. The spec (4.5):
  \<open>paginate(packets, pages, subpages)\<close> is a state machine keyed per magazine, with the
  states IDLE and COLLECTING. IDLE: on any row-0 packet whose \<open>page \<in> pages\<close> and
  \<open>subpage \<in> subpages\<close>, go to COLLECTING and buffer the header. COLLECTING: on a row
  1 to 25 packet from the same magazine, append it to the buffer; on a new row-0 packet
  from the same magazine, emit the current buffer (regardless of completeness) and
  continue as IDLE would. On end-of-stream all non-empty buffers are flushed. When the
  same row arrives twice before a new header the first is kept.

  The state is the list of the magazines that are COLLECTING, each with its buffer, in
  the order their headers were seen; a magazine not in the list is IDLE. The page key and
  the subpage of a header come from the decode of \<open>Packet\<close> (\<open>teletext/packet.py\<close>, not
  among the sources): they are the parameters \<open>page_of\<close> and \<open>subpage_of\<close>. The spec
  gives no rule for a row above 25, nor for a row 1 to 25 that arrives while its magazine
  is IDLE; the model drops both. What is emitted is the list of the packets of a subpage,
  as \<open>filter\<close> iterates it. The function is named \<open>paginate_subpages\<close> here, apart
  from the flag \<open>paginate\<close> of \<open>filter\<close>.
\<close>

definition buffer_put :: "int \<Rightarrow> packet list \<Rightarrow> (int \<times> packet list) list \<Rightarrow> (int \<times> packet list) list" where
  "buffer_put m buf st = map (\<lambda>(k, b). if k = m then (k, buf) else (k, b)) st"

fun paginate_from ::
  "(packet \<Rightarrow> mrag) \<Rightarrow> (packet \<Rightarrow> int) \<Rightarrow> (packet \<Rightarrow> int) \<Rightarrow> int set \<Rightarrow> int set \<Rightarrow>
   (int \<times> packet list) list \<Rightarrow> packet list \<Rightarrow> packet list list"
where
  "paginate_from mrag_of page_of subpage_of pages subpages st [] = map snd st"
| "paginate_from mrag_of page_of subpage_of pages subpages st (p # ps) =
     (if row (mrag_of p) = 0 then
        (case map_of st (magazine (mrag_of p)) of None \<Rightarrow> [] | Some buf \<Rightarrow> [buf])
        @ paginate_from mrag_of page_of subpage_of pages subpages
            (filter (\<lambda>(k, b). k \<noteq> magazine (mrag_of p)) st
             @ (if page_of p \<in> pages \<and> subpage_of p \<in> subpages then [(magazine (mrag_of p), [p])] else []))
            ps
      else if 1 \<le> row (mrag_of p) \<and> row (mrag_of p) \<le> 25 then
        paginate_from mrag_of page_of subpage_of pages subpages
          (case map_of st (magazine (mrag_of p)) of
             None \<Rightarrow> st
           | Some buf \<Rightarrow>
               if list_ex (\<lambda>q. row (mrag_of q) = row (mrag_of p)) buf then st
               else buffer_put (magazine (mrag_of p)) (buf @ [p]) st)
          ps
      else paginate_from mrag_of page_of subpage_of pages subpages st ps)"

definition paginate_subpages ::
  "(packet \<Rightarrow> mrag) \<Rightarrow> (packet \<Rightarrow> int) \<Rightarrow> (packet \<Rightarrow> int) \<Rightarrow>
   packet list \<Rightarrow> int set \<Rightarrow> int set \<Rightarrow> packet list list"
where
  "paginate_subpages mrag_of page_of subpage_of packets pages subpages =
     paginate_from mrag_of page_of subpage_of pages subpages [] packets"


text \<open>
  What \<open>paginate_subpages\<close> may emit for the sets \<open>pages\<close> and \<open>subpages\<close>: a header whose page
  and subpage are accepted, followed by packets that are not headers.
\<close>

definition subpage_accepted ::
  "(packet \<Rightarrow> mrag) \<Rightarrow> (packet \<Rightarrow> int) \<Rightarrow> (packet \<Rightarrow> int) \<Rightarrow> int set \<Rightarrow> int set \<Rightarrow> packet list \<Rightarrow> bool"
where
  "subpage_accepted mrag_of page_of subpage_of pages subpages pl =
     (case pl of
        [] \<Rightarrow> False
      | h # rest \<Rightarrow> row (mrag_of h) = 0 \<and> page_of h \<in> pages \<and> subpage_of h \<in> subpages
                   \<and> list_all (\<lambda>q. row (mrag_of q) \<noteq> 0) rest)"

subsection \<open>\<open>spellcheck\<close> and \<open>vbiview\<close>\<close>

text \<open>
  The outcome of the import at the head of the command: the module is there, or the
  import raised. The import machinery sets \<open>name\<close> on the \<open>ModuleNotFoundError\<close> it
  raises; the attribute is \<open>None\<close> only on one raised by hand.
\<close>

datatype import_result = Imported | ImportFailed exn

definition spellcheck ::
  "import_result \<Rightarrow> (string \<Rightarrow> packet list \<Rightarrow> packet list) \<Rightarrow> packet list \<Rightarrow> string \<Rightarrow> exn + packet list"
where
  "spellcheck imp spellcheck_iter packets language =
     (case imp of
        ImportFailed (ModuleNotFoundError name msg) \<Rightarrow>
          if name = Some ''enchant''
          then Inl (UsageError (msg @ ''. PyEnchant is not installed. Spelling checker is not available.''))
          else Inl (ModuleNotFoundError name msg)
      | ImportFailed e \<Rightarrow> Inl e
      | Imported \<Rightarrow> Inr (spellcheck_iter language packets))"

definition vbiview ::
  "import_result \<Rightarrow> 'l line_class \<Rightarrow> ('l list \<Rightarrow> config \<Rightarrow> 'r) \<Rightarrow> (nat \<Rightarrow> chunk list) \<Rightarrow> config \<Rightarrow> exn + 'r"
where
  "vbiview imp L VBIViewer chunker config =
     (case imp of
        ImportFailed (ModuleNotFoundError name msg) \<Rightarrow>
          (case name of
             None \<Rightarrow> Inl AttributeError
           | Some n \<Rightarrow>
               if prefix ''OpenGL'' n
               then Inl (UsageError (msg @ ''. PyOpenGL is not installed. VBI viewer is not available.''))
               else Inl (ModuleNotFoundError name msg))
      | ImportFailed e \<Rightarrow> Inl e
      | Imported \<Rightarrow>
          (let chunks = chunker (line_length config);
               lines = map (\<lambda>(num, chunk). new_line L chunk num (- 3)) chunks
           in Inr (VBIViewer lines config)))"

subsection \<open>\<open>deconvolve\<close> and \<open>slice\<close>\<close>

text \<open>
  Lines 362 to 398 and 409 to 443. Each returns its stream of packets, after the same
  registration of the taps as in \<open>packetreader\<close> (here the \<open>StatsList\<close> is also assigned
  for \<open>--rejects\<close>). \<open>Line.set_config\<close> and \<open>Line.disable_cuda\<close> set up the signal
  processing, which is not modelled.
\<close>

definition deconvolve ::
  "'l line_class \<Rightarrow> (packet \<Rightarrow> mrag) \<Rightarrow> (nat \<Rightarrow> chunk list) \<Rightarrow> int list \<Rightarrow> int list \<Rightarrow> config \<Rightarrow>
   bool \<Rightarrow> int \<Rightarrow> bool option \<Rightarrow> bool option \<Rightarrow> bool option \<Rightarrow> bool option \<Rightarrow> bool option \<Rightarrow>
   exn + packet list"
where
  "deconvolve L mrag_of chunker mags rows config force_cpu extra_roll progress mag_hist row_hist err_hist rejects =
     (let chunks = chunker (line_length config);
          chunks1 = (if truthy progress then tqdm chunks else chunks);
          stats_list = (truthy progress \<and> (truthy mag_hist \<or> truthy row_hist \<or> truthy rejects));
          lines = map (\<lambda>(num, chunk). new_line L chunk num extra_roll) chunks1;
          lines1 = (if truthy progress \<and> truthy rejects then Rejects lines else lines);
          packets = map (\<lambda>l. line_deconvolve L mrag_of l mags rows) (filter (is_teletext L) lines1);
          packets1 = concat (map (\<lambda>p. case p of None \<Rightarrow> [] | Some q \<Rightarrow> [q]) packets);
          packets2 = (if truthy progress \<and> truthy mag_hist then MagHistogram packets1 else packets1);
          packets3 = (if truthy progress \<and> truthy row_hist then RowHistogram packets2 else packets2);
          packets4 = (if truthy progress \<and> truthy err_hist then ErrorHistogram packets3 else packets3)
      in if truthy progress \<and> truthy err_hist \<and> \<not> stats_list then Inl AttributeError
         else Inr packets4)"

definition slice_cmd ::
  "'l line_class \<Rightarrow> (packet \<Rightarrow> mrag) \<Rightarrow> (nat \<Rightarrow> chunk list) \<Rightarrow> int list \<Rightarrow> int list \<Rightarrow> config \<Rightarrow>
   int \<Rightarrow> bool option \<Rightarrow> bool option \<Rightarrow> bool option \<Rightarrow> bool option \<Rightarrow> bool option \<Rightarrow>
   exn + packet list"
where
  "slice_cmd L mrag_of chunker mags rows config extra_roll progress mag_hist row_hist err_hist rejects =
     (let chunks = chunker (line_length config);
          chunks1 = (if truthy progress then tqdm chunks else chunks);
          stats_list = (truthy progress \<and> (truthy mag_hist \<or> truthy row_hist \<or> truthy rejects));
          lines = map (\<lambda>(num, chunk). new_line L chunk num extra_roll) chunks1;
          lines1 = (if truthy progress \<and> truthy rejects then Rejects lines else lines);
          packets = map (\<lambda>l. line_slice L mrag_of l mags rows) (filter (is_teletext L) lines1);
          packets1 = concat (map (\<lambda>p. case p of None \<Rightarrow> [] | Some q \<Rightarrow> [q]) packets);
          packets2 = (if truthy progress \<and> truthy mag_hist then MagHistogram packets1 else packets1);
          packets3 = (if truthy progress \<and> truthy row_hist then RowHistogram packets2 else packets2);
          packets4 = (if truthy progress \<and> truthy err_hist then ErrorHistogram packets3 else packets3)
      in if truthy progress \<and> truthy err_hist \<and> \<not> stats_list then Inl AttributeError
         else Inr packets4)"

subsection \<open>\<open>record\<close>\<close>

text \<open>\<open>struct.unpack('<I', bs)\<close>: four bytes, least significant first; any other length raises.\<close>

definition unpack_le_u32 :: "byte list \<Rightarrow> exn + int" where
  "unpack_le_u32 bs =
     (case bs of
        [b0, b1, b2, b3] \<Rightarrow> Inr (uint b0 + 256 * uint b1 + 65536 * uint b2 + 16777216 * uint b3)
      | _ \<Rightarrow> Inl StructError)"

text \<open>
  What \<open>record\<close> changes: the bytes written to \<open>output\<close>, \<open>prev_seq\<close>, \<open>dropped\<close>, and
  the text written to standard error.
\<close>

record rec_state =
  written :: "byte list"
  prev_seq :: "int option"
  dropped :: int
  stderr :: string

text \<open>The body of the loop, lines 316 to 321, for one frame.\<close>

definition record_step :: "rec_state \<Rightarrow> byte list \<Rightarrow> rec_state \<times> exn option" where
  "record_step s chunk =
     (let s1 = s\<lparr>written := written s @ chunk\<rparr> in
      case unpack_le_u32 (py_last 4 chunk) of
        Inl e \<Rightarrow> (s1, Some e)
      | Inr seq \<Rightarrow>
          let s2 = (if (case prev_seq s1 of None \<Rightarrow> False | Some p \<Rightarrow> seq \<noteq> p + 1)
                    then s1\<lparr>dropped := dropped s1 + 1,
                            stderr := stderr s1 @ ''Frame drop? '' @ py_str (dropped s1 + 1) @ newline\<rparr>
                    else s1)
          in (s2\<lparr>prev_seq := Some seq\<rparr>, None))"

text \<open>The loop, lines 315 to 321: it ends with the stream, or where something is raised.\<close>

fun record_loop :: "rec_state \<Rightarrow> chunk event list \<Rightarrow> rec_state \<times> exn option" where
  "record_loop s [] = (s, None)"
| "record_loop s (Interrupt # es) = (s, Some KeyboardInterrupt)"
| "record_loop s (Item (n, chunk) # es) =
     (case record_step s chunk of
        (s1, Some e) \<Rightarrow> (s1, Some e)
      | (s1, None) \<Rightarrow> record_loop s1 es)"

text \<open>
  \<open>record(output, device, config)\<close>, lines 308 to 324, with Ctrl-C pressed after
  \<open>sigint\<close> frames. \<open>FileChunker\<close> is called with the stream and the chunk size only:
  it starts at chunk 0 with step 1, no stop and no limit, the defaults of the options of
  \<open>chunkreader\<close>. The result is the final state and the exception that leaves the
  function, if any.
\<close>

definition record_cmd :: "byte list \<Rightarrow> byte list \<Rightarrow> config \<Rightarrow> nat option \<Rightarrow> rec_state \<times> exn option" where
  "record_cmd out device config sigint =
     (let chunks = FileChunker device (line_length config * 32) 0 None 1 None;
          bar = tqdm chunks
      in case record_loop \<lparr>written = out, prev_seq = None, dropped = 0, stderr = []\<rparr>
                (interruptible sigint bar) of
           (s, Some KeyboardInterrupt) \<Rightarrow> (s, None)
         | (s, raised) \<Rightarrow> (s, raised))"

subsection \<open>The exit code\<close>

text \<open>
  The process exit code is set by click's runner, a third-party library: 0 when the
  command returns, a usage error's own code 2, and 1 for an interrupt (click turns it
  into \<open>Abort\<close>) or any other exception that leaves the command.
\<close>

definition click_exit :: "exn option \<Rightarrow> int" where
  "click_exit raised =
     (case raised of
        None \<Rightarrow> 0
      | Some (UsageError msg) \<Rightarrow> 2
      | Some e \<Rightarrow> 1)"

definition raised_by :: "exn + 'a \<Rightarrow> exn option" where
  "raised_by r = (case r of Inl e \<Rightarrow> Some e | Inr v \<Rightarrow> None)"

section \<open>\<open>celp.py\<close>\<close>

subsection \<open>\<open>celp_print\<close>\<close>







subsection \<open>The bit layout of an audio frame\<close>

text \<open>
  The array \<open>widths\<close> of \<open>celp_plot\<close> (lines 62 to 71) and of \<open>celp_generate_audio\<close>
  (lines 115 to 124), the same literal in both, with its leading 0, and \<open>g\<close>, its
  cumulative sum.
\<close>

definition widths :: "nat list" where
  "widths = [0,
     3, 4, 4, 4, 4, 4, 4, 4, 3, 3,
     5, 5, 5, 5,
     5, 5, 5, 5,
     7, 7, 7, 7,
     8, 8, 8, 8,
     3, 3, 3, 3,
     3]"

fun cumsum_from :: "nat \<Rightarrow> nat list \<Rightarrow> nat list" where
  "cumsum_from acc [] = []"
| "cumsum_from acc (x # xs) = (acc + x) # cumsum_from (acc + x) xs"

definition cumsum :: "nat list \<Rightarrow> nat list" where
  "cumsum xs = cumsum_from 0 xs"

definition g :: "nat list" where
  "g = cumsum widths"

text \<open>
  \<open>np.unpackbits(..., bitorder='little')\<close>: the bits of each byte, least significant
  first. \<open>np.packbits(..., bitorder='little')\<close>: each run of eight bits, the last padded
  with zeros, as a byte whose least significant bit is the first.
\<close>

definition byte_bits_little :: "byte \<Rightarrow> bool list" where
  "byte_bits_little b = map (bit b) [0..<8]"

definition unpackbits_little :: "byte list \<Rightarrow> bool list" where
  "unpackbits_little bs = concat (map byte_bits_little bs)"

fun pack_byte_little :: "bool list \<Rightarrow> nat" where
  "pack_byte_little [] = 0"
| "pack_byte_little (b # bs) = of_bool b + 2 * pack_byte_little bs"

fun packbits_little :: "bool list \<Rightarrow> byte list" where
  "packbits_little [] = []"
| "packbits_little (b # bs) =
     of_nat (pack_byte_little (take 8 (b # bs))) # packbits_little (drop 8 (b # bs))"

text \<open>\<open>a.reshape(-1, n)\<close> of a flat array whose length is a multiple of \<open>n\<close>.\<close>

definition reshape_rows :: "nat \<Rightarrow> 'a list \<Rightarrow> 'a list list" where
  "reshape_rows n xs = map (\<lambda>k. take n (drop (k * n) xs)) [0..<length xs div n]"

text \<open>
  Lines 106 to 113: the frames of 152 bits \<open>celp_generate_audio\<close> decodes, from the bytes
  of the file. The reshape to \<open>(-1, 2, 19)\<close> raises unless the length is a multiple of 38.
\<close>

definition celp_frames :: "byte list \<Rightarrow> int option \<Rightarrow> exn + bool list list" where
  "celp_frames data frame =
     (if length data mod 38 \<noteq> 0 then Inl ValueError
      else
        let pairs = map (\<lambda>r. (unpackbits_little (take 19 r), unpackbits_little (drop 19 r)))
                        (reshape_rows 38 data)
        in Inr (if frame = Some 0 then map fst pairs
                else if frame = Some 1 then map snd pairs
                else concat (map (\<lambda>(a, b). [a, b]) pairs)))"

text \<open>
  Lines 138 to 141: field \<open>n\<close> of a frame is the bits from \<open>g[n]\<close> up to \<open>g[n+1]\<close>,
  packed; the assignment to one element of \<open>decoded_frame\<close> needs the packing to give one
  byte. The loop runs over \<open>range(len(g)-2)\<close>. The synthesis that follows (floating
  point, a random excitation) is not modelled.
\<close>

definition decode_field :: "bool list \<Rightarrow> nat \<Rightarrow> exn + int" where
  "decode_field raw_frame n =
     (case packbits_little (py_slice (g ! n) (g ! (n + 1)) raw_frame) of
        [v] \<Rightarrow> Inr (uint v)
      | _ \<Rightarrow> Inl ValueError)"

definition decoded_frame :: "bool list \<Rightarrow> exn + int list" where
  "decoded_frame raw_frame = collect (decode_field raw_frame) [0..<length g - 2]"

section \<open>The bit layout of a CELP audio frame\<close>

lemma g_val: "g = [0,3,7,11,15,19,23,27,31,34,37,42,47,52,57,62,67,72,77,84,91,98,105,113,121,129,137,140,143,146,149,152]"
  by (simp add: g_def cumsum_def widths_def)

lemma length_cumsum_from: "length (cumsum_from a xs) = length xs"
  by (induction xs arbitrary: a) simp_all

lemma cumsum_from_step:
  "Suc n < length xs \<Longrightarrow> cumsum_from a xs ! Suc n = cumsum_from a xs ! n + xs ! Suc n"
proof (induction xs arbitrary: a n)
  case Nil then show ?case by simp
next
  case (Cons x xs)
  show ?case
  proof (cases n)
    case 0
    with Cons.prems show ?thesis by (cases xs) simp_all
  next
    case (Suc m)
    with Cons.prems Cons.IH[of m "a + x"] show ?thesis by simp
  qed
qed

lemma g_step: "n < 31 \<Longrightarrow> g ! Suc n = g ! n + widths ! Suc n"
  unfolding g_def cumsum_def by (rule cumsum_from_step) (simp add: widths_def)

lemma widths_bounds: "n < 31 \<Longrightarrow> 0 < widths ! Suc n \<and> widths ! Suc n \<le> 8"
proof -
  assume n: "n < 31"
  have "\<forall>x \<in> set (tl widths). 0 < x \<and> x \<le> 8" by (simp add: widths_def)
  moreover have "widths ! Suc n = tl widths ! n" by (simp add: widths_def)
  moreover have "n < length (tl widths)" using n by (simp add: widths_def)
  ultimately show ?thesis by (metis nth_mem)
qed

lemma g_le: "n \<le> 31 \<Longrightarrow> g ! n \<le> 152"
proof -
  assume n: "n \<le> 31"
  have s: "sorted g" by (simp add: g_val)
  have "g ! n \<le> g ! 31" using s n by (intro sorted_nth_mono) (simp_all add: g_val)
  then show ?thesis by (simp add: g_val)
qed

lemma unpack_nth: "k < 8 * length bs \<Longrightarrow> unpackbits_little bs ! k = bit (bs ! (k div 8)) (k mod 8)"
proof (induction bs arbitrary: k)
  case Nil then show ?case by simp
next
  case (Cons b bs)
  show ?case
  proof (cases "k < 8")
    case True
    then show ?thesis by (simp add: unpackbits_little_def byte_bits_little_def nth_append)
  next
    case False
    then obtain j where j: "k = j + 8" by (metis add.commute le_add_diff_inverse not_less)
    have "unpackbits_little (b # bs) ! k = unpackbits_little bs ! j"
      by (simp add: j unpackbits_little_def byte_bits_little_def nth_append)
    moreover have "j < 8 * length bs" using Cons.prems j by simp
    moreover have "(j + 8) div 8 = Suc (j div 8)" "(j + 8) mod 8 = j mod 8" by simp_all
    ultimately show ?thesis using Cons.IH[of j] by (simp add: j)
  qed
qed

lemma length_unpack: "length (unpackbits_little bs) = 8 * length bs"
  by (induction bs) (simp_all add: unpackbits_little_def byte_bits_little_def)

lemma pack_byte_sum: "pack_byte_little bs = (\<Sum>i<length bs. of_bool (bs ! i) * 2 ^ i)"
proof (induction bs)
  case Nil then show ?case by simp
next
  case (Cons b bs)
  have "(\<Sum>i<Suc (length bs). of_bool ((b # bs) ! i) * 2 ^ i)
        = of_bool b + (\<Sum>i<length bs. of_bool (bs ! i) * 2 ^ Suc i :: nat)"
    by (subst sum.lessThan_Suc_shift) simp
  also have "(\<Sum>i<length bs. of_bool (bs ! i) * 2 ^ Suc i :: nat) = 2 * (\<Sum>i<length bs. of_bool (bs ! i) * 2 ^ i)"
    unfolding sum_distrib_left by (rule sum.cong) simp_all
  finally show ?case using Cons.IH by simp
qed

lemma pack_byte_lt: "pack_byte_little bs < 2 ^ length bs"
  by (induction bs) auto

lemma packbits_short: "0 < length bs \<Longrightarrow> length bs \<le> 8 \<Longrightarrow> packbits_little bs = [of_nat (pack_byte_little bs)]"
  by (cases bs) auto

lemma decode_field_value:
  assumes fr: "length fr = 19" and n: "n < 31"
  shows "decode_field (unpackbits_little fr) n =
           Inr (int (\<Sum>i<widths ! (n + 1).
                  of_bool (bit (fr ! ((g ! n + i) div 8)) ((g ! n + i) mod 8)) * 2 ^ i))"
proof -
  define w where "w = widths ! Suc n"
  define bits where "bits = unpackbits_little fr"
  define fld where "fld = py_slice (g ! n) (g ! (n + 1)) bits"
  have step: "g ! Suc n = g ! n + w" using g_step[OF n] by (simp add: w_def)
  have w: "0 < w" "w \<le> 8" using widths_bounds[OF n] by (simp_all add: w_def)
  have le: "g ! Suc n \<le> 152" using g_le[of "Suc n"] n by simp
  have lb: "length bits = 152" by (simp add: bits_def length_unpack fr)
  have lf: "length fld = w" using step le lb by (simp add: fld_def py_slice_def)
  have nth: "fld ! i = bit (fr ! ((g ! n + i) div 8)) ((g ! n + i) mod 8)" if "i < w" for i
  proof -
    have "g ! n + i < 152" using that step le by simp
    moreover have "fld ! i = bits ! (g ! n + i)"
      using that step le lb by (simp add: fld_def py_slice_def)
    ultimately show ?thesis by (simp add: bits_def unpack_nth fr)
  qed
  have "pack_byte_little fld < 2 ^ 8"
    using pack_byte_lt[of fld] lf w
    by (meson le_trans less_le_trans not_less one_le_numeral power_increasing)
  then have u: "uint (of_nat (pack_byte_little fld) :: byte) = int (pack_byte_little fld)"
    by (simp add: uint_nat unat_of_nat)
  have "pack_byte_little fld = (\<Sum>i<w. of_bool (fld ! i) * 2 ^ i)"
    by (simp add: pack_byte_sum lf)
  also have "\<dots> = (\<Sum>i<w. of_bool (bit (fr ! ((g ! n + i) div 8)) ((g ! n + i) mod 8)) * 2 ^ i)"
    by (rule sum.cong) (simp_all add: nth)
  finally have v: "pack_byte_little fld =
      (\<Sum>i<w. of_bool (bit (fr ! ((g ! n + i) div 8)) ((g ! n + i) mod 8)) * 2 ^ i)" .
  have pk: "packbits_little fld = [of_nat (pack_byte_little fld)]"
    using packbits_short[of fld] lf w by simp
  have "decode_field bits n =
          (case packbits_little fld of [v] \<Rightarrow> Inr (uint v) | _ \<Rightarrow> Inl ValueError)"
    by (simp only: decode_field_def fld_def)
  also have "\<dots> = Inr (uint (of_nat (pack_byte_little fld) :: byte))"
    by (simp only: pk list.case)
  also have "\<dots> = Inr (int (pack_byte_little fld))"
    by (simp only: u)
  finally show ?thesis
    by (simp only: v w_def bits_def Suc_eq_plus1)
qed

lemma collect_all_Inr:
  "(\<And>x. x \<in> set xs \<Longrightarrow> \<exists>y. f x = Inr y) \<Longrightarrow> \<exists>ys. collect f xs = Inr ys \<and> length ys = length xs"
proof (induction xs)
  case Nil then show ?case by simp
next
  case (Cons x xs)
  then obtain y where y: "f x = Inr y" by auto
  from Cons obtain ys where "collect f xs = Inr ys" "length ys = length xs" by auto
  with y show ?case by simp
qed

lemma length_decoded:
  assumes "length fr = 19"
  shows "\<exists>vs. decoded_frame (unpackbits_little fr) = Inr vs \<and> length vs = 30"
proof -
  have lg: "length g = 32" by (simp add: g_val)
  have "\<exists>ys. collect (decode_field (unpackbits_little fr)) [0..<length g - 2] = Inr ys
          \<and> length ys = length [0..<length g - 2]"
  proof (rule collect_all_Inr)
    fix x assume "x \<in> set [0..<length g - 2]"
    then have "x < length g - 2" by simp
    then have "x < 31" by (simp add: lg)
    from decode_field_value[OF assms this] show "\<exists>y. decode_field (unpackbits_little fr) x = Inr y"
      by blast
  qed
  then show ?thesis by (simp add: decoded_frame_def lg)
qed


text \<open>
  C6. The field widths used to unpack a 152-bit audio frame are, after the leading 0 the
  cumulative sum needs, 3,4,4,4,4,4,4,4,3,3 (ten LSF parameters, 37 bits), four 5-bit pitch
  gains, four 5-bit vector gains, four 7-bit pitch indices, four 8-bit vector indices, four
  3-bit error-correction fields and one 3-bit padding field; they sum to 152, the last
  offset is 152, and the value decoded for field \<open>n\<close> of a 19-byte frame is little-endian
  within the field: bit \<open>i\<close> of the field, which is bit \<open>g[n] + i\<close> of the frame (bytes in
  order, least significant bit first), has weight \<open>2 ^ i\<close>. The decoding loop fills 30
  fields, all but the padding.
\<close>

theorem celp_frame_layout:
  "widths = 0 # ([3, 4, 4, 4, 4, 4, 4, 4, 3, 3] @ replicate 4 5 @ replicate 4 5 @ replicate 4 7
                  @ replicate 4 8 @ replicate 4 3 @ [3])
   \<and> sum_list (take 10 (tl widths)) = 37
   \<and> sum_list widths = 152
   \<and> length g = 32 \<and> last g = 152
   \<and> (\<forall>fr n. length fr = 19 \<and> n < 31 \<longrightarrow>
         decode_field (unpackbits_little fr) n =
           Inr (int (\<Sum>i<widths ! (n + 1).
                  of_bool (bit (fr ! ((g ! n + i) div 8)) ((g ! n + i) mod 8)) * 2 ^ i)))
   \<and> (\<forall>fr. length fr = 19 \<longrightarrow>
         (\<exists>vs. decoded_frame (unpackbits_little fr) = Inr vs \<and> length vs = 30))"
proof -
  have 1: "widths = 0 # ([3, 4, 4, 4, 4, 4, 4, 4, 3, 3] @ replicate 4 5 @ replicate 4 5 @ replicate 4 7
                  @ replicate 4 8 @ replicate 4 3 @ [3])"
    by (simp add: widths_def numeral_eq_Suc)
  have 2: "sum_list (take 10 (tl widths)) = 37" by (simp add: widths_def)
  have 3: "sum_list widths = 152" by (simp add: widths_def)
  have 4: "length g = 32 \<and> last g = 152" by (simp add: g_val)
  show ?thesis using 1 2 3 4 decode_field_value length_decoded by blast
qed

theorem celp_frame_layout_witness:
  "length (0x2D # replicate 18 (0 :: byte)) = 19 \<and> (1 :: nat) < 31
   \<and> decode_field (unpackbits_little (0x2D # replicate 18 0)) 1 = Inr 5
   \<and> int (\<Sum>i<widths ! (1 + 1).
        of_bool (bit ((0x2D # replicate 18 (0 :: byte)) ! ((g ! 1 + i) div 8)) ((g ! 1 + i) mod 8)) * 2 ^ i) = 5"
proof -
  have h: "length (0x2D # replicate 18 (0 :: byte)) = 19 \<and> (1 :: nat) < 31"
    by simp
  have v: "decode_field (unpackbits_little (0x2D # replicate 18 0)) 1 = Inr 5"
    by code_simp
  note f = celp_frame_layout[THEN conjunct2, THEN conjunct2, THEN conjunct2, THEN conjunct2,
      THEN conjunct2, THEN conjunct1, rule_format, OF h]
  from v have "int (\<Sum>i<widths ! (1 + 1).
        of_bool (bit ((0x2D # replicate 18 (0 :: byte)) ! ((g ! 1 + i) div 8)) ((g ! 1 + i) mod 8)) * 2 ^ i) = 5"
    unfolding f by (simp only: sum.inject)
  with h v show ?thesis by (simp only: simp_thms)
qed

section \<open>What \<open>FileChunker\<close> emits\<close>

declare chunks_from.simps [simp del]

lemma chunks_from_emitted:
  "(i, c) \<in> set (chunks_from inp chunk_size stop step limit emitted idx) \<Longrightarrow>
     length c = chunk_size \<and> c = take chunk_size (drop (i * chunk_size) inp)
     \<and> (i + 1) * chunk_size \<le> length inp \<and> (\<exists>k. i = idx + k * step)
     \<and> (\<forall>st. stop = Some st \<longrightarrow> i + step \<le> st)"
proof (induction inp chunk_size stop step limit emitted idx rule: chunks_from.induct)
  case (1 inp chunk_size stop step limit emitted idx)
  show ?case
  proof (cases "chunk_size = 0 \<or> step = 0
      \<or> (case stop of None \<Rightarrow> False | Some st \<Rightarrow> st < idx + step)
      \<or> (case limit of None \<Rightarrow> False | Some l \<Rightarrow> l \<le> emitted)
      \<or> length inp < (idx + 1) * chunk_size")
    case True
    then have "chunks_from inp chunk_size stop step limit emitted idx = []"
      by (subst chunks_from.simps) auto
    with "1.prems" show ?thesis by simp
  next
    case False
    then have eq: "chunks_from inp chunk_size stop step limit emitted idx =
        (idx, take chunk_size (drop (idx * chunk_size) inp))
          # chunks_from inp chunk_size stop step limit (Suc emitted) (idx + step)"
      by (subst chunks_from.simps) auto
    from "1.prems" eq consider
      (hd) "i = idx" "c = take chunk_size (drop (idx * chunk_size) inp)"
      | (tl) "(i, c) \<in> set (chunks_from inp chunk_size stop step limit (Suc emitted) (idx + step))"
      by auto
    then show ?thesis
    proof cases
      case hd
      have "idx * chunk_size + chunk_size \<le> length inp" using False by simp
      then have "length (take chunk_size (drop (idx * chunk_size) inp)) = chunk_size" by simp
      moreover have "idx = idx + 0 * step" by simp
      moreover have "\<forall>st. stop = Some st \<longrightarrow> idx + step \<le> st" using False by (auto split: option.splits)
      ultimately show ?thesis using hd False by auto
    next
      case tl
      have ih: "length c = chunk_size \<and> c = take chunk_size (drop (i * chunk_size) inp)
         \<and> (i + 1) * chunk_size \<le> length inp \<and> (\<exists>k. i = idx + step + k * step)
         \<and> (\<forall>st. stop = Some st \<longrightarrow> i + step \<le> st)"
        using "1.IH"[OF _ _ _ _ tl] False by auto
      then obtain k where "i = idx + step + k * step" by blast
      then have "i = idx + Suc k * step" by simp
      with ih show ?thesis by blast
    qed
  qed
qed

lemma floor_step:
  assumes "0 < step" "idx + step \<le> st"
  shows "(st - idx) div step = Suc ((st - (idx + step)) div (step::nat))"
proof -
  have "st - idx = (st - (idx + step)) + step" using assms by simp
  then show ?thesis using assms by (simp only: div_add_self2)
qed

lemma chunks_from_long:
  assumes "0 < chunk_size" "0 < step" "st * chunk_size \<le> length inp"
  shows "chunks_from inp chunk_size (Some st) step (Some l) emitted idx =
     map (\<lambda>k. (idx + k * step, take chunk_size (drop ((idx + k * step) * chunk_size) inp)))
       [0..<min (l - emitted) ((st - idx) div step)]"
  using assms
proof (induction inp chunk_size "Some st" step "Some l" emitted idx rule: chunks_from.induct)
  case (1 inp chunk_size step emitted idx)
  show ?case
  proof (cases "st < idx + step \<or> l \<le> emitted")
    case True
    then have "min (l - emitted) ((st - idx) div step) = 0"
      using "1.prems" by auto
    moreover have "chunks_from inp chunk_size (Some st) step (Some l) emitted idx = []"
      using True by (subst chunks_from.simps) auto
    ultimately show ?thesis by simp
  next
    case False
    then have lt: "idx + step \<le> st" "emitted < l" by simp_all
    then have "idx < st" using "1.prems"(2) by simp
    then have "(idx + 1) * chunk_size \<le> st * chunk_size" by (intro mult_le_mono1) simp
    then have rd: "\<not> length inp < (idx + 1) * chunk_size" using "1.prems" by simp
    have eq: "chunks_from inp chunk_size (Some st) step (Some l) emitted idx =
        (idx, take chunk_size (drop (idx * chunk_size) inp))
          # chunks_from inp chunk_size (Some st) step (Some l) (Suc emitted) (idx + step)"
      using lt rd "1.prems" by (subst chunks_from.simps) auto
    have ih: "chunks_from inp chunk_size (Some st) step (Some l) (Suc emitted) (idx + step) =
       map (\<lambda>k. (idx + step + k * step, take chunk_size (drop ((idx + step + k * step) * chunk_size) inp)))
         [0..<min (l - Suc emitted) ((st - (idx + step)) div step)]"
      using "1.hyps" lt rd "1.prems" by simp
    have n: "min (l - emitted) ((st - idx) div step) =
        Suc (min (l - Suc emitted) ((st - (idx + step)) div step))"
    proof -
      have "l - emitted = Suc (l - Suc emitted)" using lt(2) by simp
      then show ?thesis
        by (simp only: floor_step[OF "1.prems"(2) lt(1)] min_Suc_Suc)
    qed
    show ?thesis
      unfolding eq ih n by (simp add: map_upt_Suc add.assoc del: upt_Suc)
  qed
qed

lemma chunks_from_halted:
  "st < idx + step \<Longrightarrow> chunks_from inp chunk_size (Some st) step limit emitted idx = []"
  by (subst chunks_from.simps) simp

lemma floor_int:
  "start \<le> stop \<Longrightarrow>
     int (min limit ((stop - start) div step)) = min (int limit) ((int stop - int start) div int step)"
proof -
  assume a: "start \<le> stop"
  have "int ((stop - start) div step) = (int stop - int start) div int step"
    using a by (simp add: of_nat_diff zdiv_int)
  then show ?thesis by (simp add: min_def)
qed

text \<open>
  C4. With a positive \<open>chunk_size\<close> and \<open>step\<close>, \<open>start\<close> not after \<open>stop\<close> and a stream
  that holds the first \<open>stop\<close> chunks, \<open>FileChunker\<close> emits the pairs \<open>(index, bytes)\<close>
  for the indices \<open>start\<close>, \<open>start + step\<close>, ...: their number is exactly the minimum of
  \<open>limit\<close> and \<open>(stop - start) / step\<close> rounded down, as integers. When not even one
  step fits between \<open>start\<close> and \<open>stop\<close> (in particular when \<open>stop\<close> is before
  \<open>start\<close>, where the quotient is negative) nothing is emitted. Whatever the arguments
  and the stream, every chunk emitted has exactly \<open>chunk_size\<close> bytes, lies whole inside
  the stream (a short final chunk is never emitted) and has an index \<open>start + k * step\<close>.
\<close>

theorem FileChunker_chunks:
  "(0 < chunk_size \<and> 0 < step \<and> start \<le> stop \<and> stop * chunk_size \<le> length inp \<longrightarrow>
      FileChunker inp chunk_size start (Some stop) step (Some limit) =
        map (\<lambda>k. (start + k * step, take chunk_size (drop ((start + k * step) * chunk_size) inp)))
            [0..<min limit ((stop - start) div step)]
      \<and> int (length (FileChunker inp chunk_size start (Some stop) step (Some limit))) =
           min (int limit) ((int stop - int start) div int step))
   \<and> (stop < start + step \<longrightarrow> FileChunker inp chunk_size start (Some stop) step limit1 = [])
   \<and> (\<forall>(i, c) \<in> set (FileChunker inp chunk_size start stop1 step limit1).
         length c = chunk_size \<and> c = take chunk_size (drop (i * chunk_size) inp)
         \<and> (i + 1) * chunk_size \<le> length inp \<and> (\<exists>k. i = start + k * step))"
proof -
  have a: "FileChunker inp chunk_size start (Some stop) step (Some limit) =
        map (\<lambda>k. (start + k * step, take chunk_size (drop ((start + k * step) * chunk_size) inp)))
            [0..<min limit ((stop - start) div step)]"
    if "0 < chunk_size" "0 < step" "stop * chunk_size \<le> length inp"
    using chunks_from_long[OF that, of limit 0 start] by (simp add: FileChunker_def)
  have b: "int (length (FileChunker inp chunk_size start (Some stop) step (Some limit))) =
           min (int limit) ((int stop - int start) div int step)"
    if "0 < chunk_size" "0 < step" "start \<le> stop" "stop * chunk_size \<le> length inp"
    by (simp only: a[OF that(1,2,4)] length_map length_upt diff_zero floor_int[OF that(3)])
  have c: "FileChunker inp chunk_size start (Some stop) step limit1 = []" if "stop < start + step"
    unfolding FileChunker_def by (rule chunks_from_halted[OF that])
  have d: "\<forall>(i, c) \<in> set (FileChunker inp chunk_size start stop1 step limit1).
         length c = chunk_size \<and> c = take chunk_size (drop (i * chunk_size) inp)
         \<and> (i + 1) * chunk_size \<le> length inp \<and> (\<exists>k. i = start + k * step)"
    unfolding FileChunker_def using chunks_from_emitted by blast
  show ?thesis using a b c d by blast
qed

lemma FileChunker_example:
  "FileChunker [1, 2, 3, 4, 5] 1 0 (Some 5) 2 (Some 10) = [(0, [1]), (2, [3])]"
  by code_simp

text \<open>Five chunks of one byte, every second one up to the fifth: chunks 0 and 2.\<close>

theorem FileChunker_chunks_witness:
  "(0 :: nat) < 1 \<and> (0 :: nat) < 2 \<and> (0 :: nat) \<le> 5 \<and> 5 * 1 \<le> length [1, 2, 3, 4, 5 :: byte]
   \<and> FileChunker [1, 2, 3, 4, 5] 1 0 (Some 5) 2 (Some 10) = [(0, [1]), (2, [3])]
   \<and> int (length (FileChunker [1, 2, 3, 4, 5] 1 0 (Some 5) 2 (Some 10))) = min (int 10) ((int 5 - int 0) div int 2)
   \<and> min (int 10) ((int 5 - int 0) div int 2) = 2"
proof -
  have h: "(0 :: nat) < 1 \<and> (0 :: nat) < 2 \<and> (0 :: nat) \<le> 5 \<and> 5 * 1 \<le> length [1, 2, 3, 4, 5 :: byte]"
    by simp
  note t = FileChunker_chunks[where chunk_size = 1 and step = 2 and stop = 5
      and inp = "[1, 2, 3, 4, 5]" and start = 0 and limit = 10, THEN conjunct1, rule_format, OF h]
  from t have "int (length (FileChunker [1, 2, 3, 4, 5] 1 0 (Some 5) 2 (Some 10))) =
      min (int 10) ((int 5 - int 0) div int 2)"
    by (rule conjunct2)
  moreover have "min (int 10) ((int 5 - int 0) div int 2) = 2" by simp
  ultimately show ?thesis using h FileChunker_example by (simp only: simp_thms)
qed

section \<open>The chunks \<open>packetreader\<close> reads with \<open>--wst\<close>\<close>

lemma tuple_slice_chunk: "tuple_slice_to 42 (chunk_tuple c) = chunk_tuple c"
  by (simp add: tuple_slice_to_def chunk_tuple_def)

lemma FileChunker_129:
  "FileChunker (map of_nat [0..<129]) 43 0 None 1 None =
     [(0, map of_nat [0..<43]), (1, map of_nat [43..<86]), (2, map of_nat [86..<129])]"
  by code_simp

text \<open>
  C1. With \<open>--wst\<close> the wrapper reads chunks of 43 bytes and means to keep the first 42 of
  each (the expression \<open>c[:42]\<close> of line 112). The chunk \<open>c\<close> is the tuple
  \<open>(number, data)\<close>, so the slice keeps the whole tuple and the 43 bytes reach \<open>Packet\<close>:
  the chunks of the \<open>--wst\<close> path are those of \<open>chunker(43)\<close> unchanged, and a 129-byte
  input gives three packets of 43 bytes, not of 42.
\<close>

theorem wst_chunks_not_trimmed:
  "reader_chunks chunker True = map chunk_tuple (chunker 43)
   \<and> make_packets (reader_chunks (\<lambda>chunk_size. FileChunker (map of_nat [0..<129]) chunk_size 0 None 1 None) True) =
       Inr [\<lparr>array = map of_nat [0..<43], number = 0\<rparr>,
            \<lparr>array = map of_nat [43..<86], number = 1\<rparr>,
            \<lparr>array = map of_nat [86..<129], number = 2\<rparr>]
   \<and> packetreader (\<lambda>p. \<lparr>magazine = 1, row = 0\<rparr>) (\<lambda>packets kwargs. Inr (map (\<lambda>p. length (array p)) packets))
         \<lparr>isatty = False, is_fifo = False, contents = map of_nat [0..<129]\<rparr> 0 None 1 None
         True [0, 1, 2, 3, 4, 5, 6, 7, 8] [0, 1] None None None None () = Inr [43, 43, 43]"
proof -
  have a: "reader_chunks chunker True = map chunk_tuple (chunker 43)" for chunker
    by (simp add: reader_chunks_def tuple_slice_chunk)
  have b: "make_packets (map chunk_tuple [(0, map of_nat [0..<43]), (1, map of_nat [43..<86]), (2, map of_nat [86..<129])]) =
       Inr [\<lparr>array = map of_nat [0..<43], number = 0\<rparr>,
            \<lparr>array = map of_nat [43..<86], number = 1\<rparr>,
            \<lparr>array = map of_nat [86..<129], number = 2\<rparr>]"
    by (simp add: make_packets_def chunk_tuple_def unpack2_def Packet_def)
  have c: "packetreader (\<lambda>p. \<lparr>magazine = 1, row = 0\<rparr>) (\<lambda>packets kwargs. Inr (map (\<lambda>p. length (array p)) packets))
         \<lparr>isatty = False, is_fifo = False, contents = map of_nat [0..<129]\<rparr> 0 None 1 None
         True [0, 1, 2, 3, 4, 5, 6, 7, 8] [0, 1] None None None None () = Inr [43, 43, 43]"
    by code_simp
  have b1: "make_packets (reader_chunks (\<lambda>chunk_size. FileChunker (map of_nat [0..<129]) chunk_size 0 None 1 None) True) =
       Inr [\<lparr>array = map of_nat [0..<43], number = 0\<rparr>,
            \<lparr>array = map of_nat [43..<86], number = 1\<rparr>,
            \<lparr>array = map of_nat [86..<129], number = 2\<rparr>]"
    by (simp only: a FileChunker_129 b)
  show ?thesis using a b1 c by (simp only: simp_thms)
qed

section \<open>The magazine and row filter\<close>

lemma keep_sliced:
  "concat (map (\<lambda>p. case p of None \<Rightarrow> [] | Some q \<Rightarrow> [q])
      (map (\<lambda>l. line_slice L mrag_of l mags rows) ls))
   = filter (\<lambda>p. magazine (mrag_of p) \<in> set mags \<and> row (mrag_of p) \<in> set rows)
       (concat (map (\<lambda>l. case sliced L l of None \<Rightarrow> [] | Some q \<Rightarrow> [q]) ls))"
  by (induction ls) (auto simp: line_slice_def split: option.splits)

lemma keep_deconvolved:
  "concat (map (\<lambda>p. case p of None \<Rightarrow> [] | Some q \<Rightarrow> [q])
      (map (\<lambda>l. line_deconvolve L mrag_of l mags rows) ls))
   = filter (\<lambda>p. magazine (mrag_of p) \<in> set mags \<and> row (mrag_of p) \<in> set rows)
       (concat (map (\<lambda>l. case deconvolved L l of None \<Rightarrow> [] | Some q \<Rightarrow> [q]) ls))"
  by (induction ls) (auto simp: line_deconvolve_def split: option.splits)

lemma slice_cmd_eq:
  "slice_cmd L mrag_of chunker mags rows config extra_roll progress mag_hist row_hist err_hist rejects =
     (if truthy progress \<and> truthy err_hist
          \<and> \<not> (truthy progress \<and> (truthy mag_hist \<or> truthy row_hist \<or> truthy rejects))
      then Inl AttributeError
      else Inr (filter (\<lambda>p. magazine (mrag_of p) \<in> set mags \<and> row (mrag_of p) \<in> set rows)
       (concat (map (\<lambda>l. case sliced L l of None \<Rightarrow> [] | Some q \<Rightarrow> [q])
          (filter (is_teletext L)
             (map (\<lambda>(num, chunk). new_line L chunk num extra_roll) (chunker (line_length config))))))))"
  by (simp only: slice_cmd_def Let_def tqdm_def Rejects_def MagHistogram_def RowHistogram_def
      ErrorHistogram_def if_cancel keep_sliced)

lemma deconvolve_eq:
  "deconvolve L mrag_of chunker mags rows config force_cpu extra_roll progress mag_hist row_hist err_hist rejects =
     (if truthy progress \<and> truthy err_hist
          \<and> \<not> (truthy progress \<and> (truthy mag_hist \<or> truthy row_hist \<or> truthy rejects))
      then Inl AttributeError
      else Inr (filter (\<lambda>p. magazine (mrag_of p) \<in> set mags \<and> row (mrag_of p) \<in> set rows)
       (concat (map (\<lambda>l. case deconvolved L l of None \<Rightarrow> [] | Some q \<Rightarrow> [q])
          (filter (is_teletext L)
             (map (\<lambda>(num, chunk). new_line L chunk num extra_roll) (chunker (line_length config))))))))"
  by (simp only: deconvolve_def Let_def tqdm_def Rejects_def MagHistogram_def RowHistogram_def
      ErrorHistogram_def if_cancel keep_deconvolved)

lemma packetreader_wrapper_eq:
  "packetreader_wrapper mrag_of f chunker wst mags rows progress mag_hist row_hist err_hist kwargs =
     (if truthy (if progress = None then Some True else progress) \<and> truthy err_hist
          \<and> \<not> (truthy (if progress = None then Some True else progress)
                \<and> (truthy mag_hist \<or> truthy row_hist))
      then Inl AttributeError
      else
        case make_packets (reader_chunks chunker wst) of
          Inl e \<Rightarrow> Inl e
        | Inr packets \<Rightarrow>
            f (filter (\<lambda>p. magazine (mrag_of p) \<in> set mags \<and> row (mrag_of p) \<in> set rows) packets) kwargs)"
  by (simp only: packetreader_wrapper_def Let_def tqdm_def MagHistogram_def RowHistogram_def
      ErrorHistogram_def if_cancel)

lemma slice_cmd_members:
  "slice_cmd L mrag_of chunker mags rows config extra_roll progress mag_hist row_hist err_hist rejects = Inr ps
   \<Longrightarrow> \<forall>p \<in> set ps. magazine (mrag_of p) \<in> set mags \<and> row (mrag_of p) \<in> set rows"
  by (auto simp: slice_cmd_eq split: if_splits)

lemma deconvolve_members:
  "deconvolve L mrag_of chunker mags rows config force_cpu extra_roll progress mag_hist row_hist err_hist rejects = Inr ps
   \<Longrightarrow> \<forall>p \<in> set ps. magazine (mrag_of p) \<in> set mags \<and> row (mrag_of p) \<in> set rows"
  by (auto simp: deconvolve_eq split: if_splits)

text \<open>
  C2. Every packet the packet-reading pipelines emit passes the filter. Unless the
  registration of the error histogram raises (then nothing is emitted), the packets
  \<open>packetreader\<close> hands to its command are the packets built from the chunks with those
  whose magazine is not in \<open>mags\<close> or whose row is not in \<open>rows\<close> removed, and the
  packets \<open>slice\<close> and \<open>deconvolve\<close> return are the packets recovered from the teletext
  lines with the same ones removed (a rejected packet is \<open>None\<close> and is dropped by the
  command). So the magazine of every emitted packet is in \<open>mags\<close> and its row in \<open>rows\<close>.
\<close>

theorem emitted_packets_pass_filter:
  "packetreader_wrapper mrag_of f chunker wst mags rows progress mag_hist row_hist err_hist kwargs =
     (if truthy (if progress = None then Some True else progress) \<and> truthy err_hist
          \<and> \<not> (truthy (if progress = None then Some True else progress)
                \<and> (truthy mag_hist \<or> truthy row_hist))
      then Inl AttributeError
      else
        case make_packets (reader_chunks chunker wst) of
          Inl e \<Rightarrow> Inl e
        | Inr packets \<Rightarrow>
            f (filter (\<lambda>p. magazine (mrag_of p) \<in> set mags \<and> row (mrag_of p) \<in> set rows) packets) kwargs)
   \<and> slice_cmd L mrag_of chunker mags rows config extra_roll flag1 flag2 flag3 flag4 flag5 =
     (if truthy flag1 \<and> truthy flag4 \<and> \<not> (truthy flag1 \<and> (truthy flag2 \<or> truthy flag3 \<or> truthy flag5))
      then Inl AttributeError
      else Inr (filter (\<lambda>p. magazine (mrag_of p) \<in> set mags \<and> row (mrag_of p) \<in> set rows)
       (concat (map (\<lambda>l. case sliced L l of None \<Rightarrow> [] | Some q \<Rightarrow> [q])
          (filter (is_teletext L)
             (map (\<lambda>(num, chunk). new_line L chunk num extra_roll) (chunker (line_length config))))))))
   \<and> deconvolve L mrag_of chunker mags rows config force_cpu extra_roll flag1 flag2 flag3 flag4 flag5 =
     (if truthy flag1 \<and> truthy flag4 \<and> \<not> (truthy flag1 \<and> (truthy flag2 \<or> truthy flag3 \<or> truthy flag5))
      then Inl AttributeError
      else Inr (filter (\<lambda>p. magazine (mrag_of p) \<in> set mags \<and> row (mrag_of p) \<in> set rows)
       (concat (map (\<lambda>l. case deconvolved L l of None \<Rightarrow> [] | Some q \<Rightarrow> [q])
          (filter (is_teletext L)
             (map (\<lambda>(num, chunk). new_line L chunk num extra_roll) (chunker (line_length config))))))))
   \<and> (slice_cmd L mrag_of chunker mags rows config extra_roll flag1 flag2 flag3 flag4 flag5 = Inr ps \<longrightarrow>
        (\<forall>p \<in> set ps. magazine (mrag_of p) \<in> set mags \<and> row (mrag_of p) \<in> set rows))
   \<and> (deconvolve L mrag_of chunker mags rows config force_cpu extra_roll flag1 flag2 flag3 flag4 flag5 = Inr ps \<longrightarrow>
        (\<forall>p \<in> set ps. magazine (mrag_of p) \<in> set mags \<and> row (mrag_of p) \<in> set rows))
   \<and> (\<forall>p \<in> set (filter (\<lambda>p. magazine (mrag_of p) \<in> set mags \<and> row (mrag_of p) \<in> set rows) packets).
        magazine (mrag_of p) \<in> set mags \<and> row (mrag_of p) \<in> set rows)"
proof -
  have h1: "slice_cmd L mrag_of chunker mags rows config extra_roll flag1 flag2 flag3 flag4 flag5 = Inr ps \<longrightarrow>
        (\<forall>p \<in> set ps. magazine (mrag_of p) \<in> set mags \<and> row (mrag_of p) \<in> set rows)"
    using slice_cmd_members by blast
  have h2: "deconvolve L mrag_of chunker mags rows config force_cpu extra_roll flag1 flag2 flag3 flag4 flag5 = Inr ps \<longrightarrow>
        (\<forall>p \<in> set ps. magazine (mrag_of p) \<in> set mags \<and> row (mrag_of p) \<in> set rows)"
    using deconvolve_members by blast
  have h3: "\<forall>p \<in> set (filter (\<lambda>p. magazine (mrag_of p) \<in> set mags \<and> row (mrag_of p) \<in> set rows) packets).
        magazine (mrag_of p) \<in> set mags \<and> row (mrag_of p) \<in> set rows"
    by simp
  show ?thesis
    by (intro conjI) (rule packetreader_wrapper_eq slice_cmd_eq deconvolve_eq h1 h2 h3)+
qed

text \<open>Two lines are sliced, one packet is of magazine 1, the other of magazine 9; only the first is emitted.\<close>

theorem emitted_packets_pass_filter_witness:
  "slice_cmd \<lparr>new_line = (\<lambda>chunk num roll. (num, chunk)), is_teletext = (\<lambda>l. True),
              sliced = (\<lambda>l. Some \<lparr>array = snd l, number = int (fst l)\<rparr>),
              deconvolved = (\<lambda>l. None)\<rparr>
     (\<lambda>p. \<lparr>magazine = number p, row = 0\<rparr>)
     (\<lambda>n. [(1, [0x15]), (9, [0x02])]) [1] [0] \<lparr>line_length = 1\<rparr> 0 None None None None None
   = Inr [\<lparr>array = [0x15], number = 1\<rparr>]
   \<and> magazine ((\<lambda>p. \<lparr>magazine = number p, row = 0\<rparr>) \<lparr>array = [0x15], number = 1\<rparr>) \<in> set [1]
   \<and> row ((\<lambda>p. \<lparr>magazine = number p, row = 0\<rparr>) \<lparr>array = [0x15], number = 1\<rparr>) \<in> set [0]"
proof -
  have v: "slice_cmd \<lparr>new_line = (\<lambda>chunk num roll. (num, chunk)), is_teletext = (\<lambda>l. True),
              sliced = (\<lambda>l. Some \<lparr>array = snd l, number = int (fst l)\<rparr>),
              deconvolved = (\<lambda>l. None)\<rparr>
     (\<lambda>p. \<lparr>magazine = number p, row = 0\<rparr>)
     (\<lambda>n. [(1, [0x15]), (9, [0x02])]) [1] [0] \<lparr>line_length = 1\<rparr> 0 None None None None None
   = Inr [\<lparr>array = [0x15], number = 1\<rparr>]"
    by code_simp
  note t = emitted_packets_pass_filter[
      where L = "\<lparr>new_line = (\<lambda>chunk num roll. (num, chunk)), is_teletext = (\<lambda>l. True),
              sliced = (\<lambda>l. Some \<lparr>array = snd l, number = int (fst l)\<rparr>),
              deconvolved = (\<lambda>l. None)\<rparr>"
      and mrag_of = "\<lambda>p. \<lparr>magazine = number p, row = 0\<rparr>"
      and chunker = "\<lambda>n. [(1, [0x15]), (9, [0x02])]" and mags = "[1]" and rows = "[0]"
      and config = "\<lparr>line_length = 1\<rparr>" and extra_roll = 0 and ?flag1.0 = None and ?flag2.0 = None
      and ?flag3.0 = None and ?flag4.0 = None and ?flag5.0 = None
      and ps = "[\<lparr>array = [0x15], number = 1\<rparr>]",
      THEN conjunct2, THEN conjunct2, THEN conjunct2, THEN conjunct1, THEN mp, OF v]
  have "\<lparr>array = [0x15], number = 1\<rparr> \<in> set [\<lparr>array = [0x15 :: byte], number = 1\<rparr>]" by simp
  with t have
    "magazine ((\<lambda>p. \<lparr>magazine = number p, row = 0\<rparr>) \<lparr>array = [0x15], number = 1\<rparr>) \<in> set [1]
   \<and> row ((\<lambda>p. \<lparr>magazine = number p, row = 0\<rparr>) \<lparr>array = [0x15], number = 1\<rparr>) \<in> set [0]"
    by (rule bspec)
  with v show ?thesis by (simp only: simp_thms)
qed

section \<open>The fields of a CELP packet\<close>


















section \<open>Missing optional modules\<close>

text \<open>
  C7. When the import at the head of \<open>spellcheck\<close> fails for the module \<open>enchant\<close>, or
  that of \<open>vbiview\<close> for a module whose name starts with \<open>OpenGL\<close>, the command raises a
  usage error whose message is the import's message followed by the name of the missing
  feature (PyEnchant, PyOpenGL); a \<open>ModuleNotFoundError\<close> for any other module leaves the
  command unchanged; and when the import succeeds the command runs.
\<close>

theorem missing_feature_rejected:
  "spellcheck (ImportFailed (ModuleNotFoundError (Some ''enchant'') msg)) spellcheck_iter packets language =
     Inl (UsageError (msg @ ''. PyEnchant is not installed. Spelling checker is not available.''))
   \<and> (name \<noteq> Some ''enchant'' \<longrightarrow>
        spellcheck (ImportFailed (ModuleNotFoundError name msg)) spellcheck_iter packets language =
          Inl (ModuleNotFoundError name msg))
   \<and> spellcheck Imported spellcheck_iter packets language = Inr (spellcheck_iter language packets)
   \<and> (prefix ''OpenGL'' n \<longrightarrow>
        vbiview (ImportFailed (ModuleNotFoundError (Some n) msg)) L VBIViewer chunker config =
          Inl (UsageError (msg @ ''. PyOpenGL is not installed. VBI viewer is not available.'')))
   \<and> (\<not> prefix ''OpenGL'' n \<longrightarrow>
        vbiview (ImportFailed (ModuleNotFoundError (Some n) msg)) L VBIViewer chunker config =
          Inl (ModuleNotFoundError (Some n) msg))
   \<and> (\<exists>r. vbiview Imported L VBIViewer chunker config = Inr r)"
  by (simp add: spellcheck_def vbiview_def Let_def)

theorem missing_feature_rejected_witness:
  "Some ''numpy'' \<noteq> Some ''enchant'' \<and> prefix ''OpenGL'' ''OpenGL.GL'' \<and> \<not> prefix ''OpenGL'' ''numpy''
   \<and> spellcheck (ImportFailed (ModuleNotFoundError (Some ''numpy'') ''No module named numpy'')) (\<lambda>l ps. ps) [] ''en_GB''
        = Inl (ModuleNotFoundError (Some ''numpy'') ''No module named numpy'')
   \<and> vbiview (ImportFailed (ModuleNotFoundError (Some ''OpenGL.GL'') ''No module named OpenGL''))
        \<lparr>new_line = (\<lambda>chunk num roll. num), is_teletext = (\<lambda>l. True), sliced = (\<lambda>l. None),
          deconvolved = (\<lambda>l. None)\<rparr> (\<lambda>ls c. ()) (\<lambda>n. []) \<lparr>line_length = 2048\<rparr>
        = Inl (UsageError ''No module named OpenGL. PyOpenGL is not installed. VBI viewer is not available.'')"
proof -
  have h1: "Some ''numpy'' \<noteq> Some ''enchant''" by simp
  have h2: "prefix ''OpenGL'' ''OpenGL.GL''" by code_simp
  have h3: "\<not> prefix ''OpenGL'' ''numpy''" by code_simp
  note t = missing_feature_rejected[where name = "Some ''numpy''" and msg = "''No module named numpy''"
      and spellcheck_iter = "\<lambda>l ps. ps" and packets = "[]" and language = "''en_GB''",
      THEN conjunct2, THEN conjunct1, rule_format, OF h1]
  note u = missing_feature_rejected[where n = "''OpenGL.GL''" and msg = "''No module named OpenGL''"
      and L = "\<lparr>new_line = (\<lambda>chunk num roll. num), is_teletext = (\<lambda>l. True), sliced = (\<lambda>l. None),
          deconvolved = (\<lambda>l. None)\<rparr>" and VBIViewer = "\<lambda>ls c. ()" and chunker = "\<lambda>n. []"
      and config = "\<lparr>line_length = 2048\<rparr>",
      THEN conjunct2, THEN conjunct2, THEN conjunct2, THEN conjunct1, rule_format, OF h2]
  show ?thesis using h1 h2 h3 t u by simp
qed

section \<open>Pagination and the default page sets of \<open>filter\<close> and \<open>squash\<close>\<close>

lemma pages_arg_none: "pages = None \<or> pages = Some [] \<Longrightarrow> pages_arg int16 pages = Inr ({0..<0x900}, False)"
  by (auto simp: pages_arg_def)

lemma subpages_arg_none: "subpages = None \<or> subpages = Some [] \<Longrightarrow> subpages_arg int16 subpages = Inr ({0..<0x3f7f}, False)"
  by (auto simp: subpages_arg_def)

lemma pages_arg_some: "ps \<noteq> [] \<Longrightarrow> pages_arg int16 (Some ps) =
    (case hex_set int16 ps of Inl e \<Rightarrow> Inl e | Inr s \<Rightarrow> Inr (s, True))"
  by (simp add: pages_arg_def)

lemma subpages_arg_some: "ps \<noteq> [] \<Longrightarrow> subpages_arg int16 (Some ps) =
    (case hex_set int16 ps of Inl e \<Rightarrow> Inl e | Inr s \<Rightarrow> Inr (s, True))"
  by (simp add: subpages_arg_def)

lemma pages_arg_flag: "pages_arg int16 pages = Inr (P, gp) \<Longrightarrow> gp = (\<exists>ps. pages = Some ps \<and> ps \<noteq> [])"
  by (cases pages) (auto simp: pages_arg_def split: if_splits sum.splits)

lemma subpages_arg_flag: "subpages_arg int16 subpages = Inr (S, gs) \<Longrightarrow> gs = (\<exists>ps. subpages = Some ps \<and> ps \<noteq> [])"
  by (cases subpages) (auto simp: subpages_arg_def split: if_splits sum.splits)

text \<open>
  C9. In \<open>filter\<close>, giving any page or subpage turns pagination on, whatever the \<open>-P\<close>
  flag: when the page and subpage values parse, the output is that of \<open>paginate\<close> over the
  packets exactly when \<open>-P\<close> is set or a page or a subpage was given, and the packets
  themselves otherwise; with no page, no subpage and no \<open>-P\<close> the packets pass through.
  A value that does not parse as hexadecimal makes the command raise, with no output.
\<close>

theorem filter_paginates_when_selected:
  "(pages_arg int16 pages = Inr (P, gp) \<and> subpages_arg int16 subpages = Inr (S, gs) \<longrightarrow>
      gp = (\<exists>ps. pages = Some ps \<and> ps \<noteq> []) \<and> gs = (\<exists>ss. subpages = Some ss \<and> ss \<noteq> [])
      \<and> filter_cmd pipeline_paginate int16 packets pages subpages paginate =
          (if paginate \<or> gp \<or> gs then Inr (concat (pipeline_paginate packets P S)) else Inr packets))
   \<and> ((pages = None \<or> pages = Some []) \<and> (subpages = None \<or> subpages = Some []) \<longrightarrow>
        filter_cmd pipeline_paginate int16 packets pages subpages False = Inr packets)
   \<and> (pages_arg int16 pages = Inl e \<or> (\<exists>r. pages_arg int16 pages = Inr r) \<and> subpages_arg int16 subpages = Inl e
        \<longrightarrow> filter_cmd pipeline_paginate int16 packets pages subpages paginate = Inl e)"
proof -
  have a: "gp = (\<exists>ps. pages = Some ps \<and> ps \<noteq> []) \<and> gs = (\<exists>ss. subpages = Some ss \<and> ss \<noteq> [])
      \<and> filter_cmd pipeline_paginate int16 packets pages subpages paginate =
          (if paginate \<or> gp \<or> gs then Inr (concat (pipeline_paginate packets P S)) else Inr packets)"
    if "pages_arg int16 pages = Inr (P, gp)" "subpages_arg int16 subpages = Inr (S, gs)"
    using that pages_arg_flag[OF that(1)] subpages_arg_flag[OF that(2)]
    by (simp add: filter_cmd_def)
  have b: "filter_cmd pipeline_paginate int16 packets pages subpages False = Inr packets"
    if "pages = None \<or> pages = Some []" "subpages = None \<or> subpages = Some []"
    by (simp add: filter_cmd_def pages_arg_none[OF that(1)] subpages_arg_none[OF that(2)])
  have c: "filter_cmd pipeline_paginate int16 packets pages subpages paginate = Inl e"
    if "pages_arg int16 pages = Inl e \<or> (\<exists>r. pages_arg int16 pages = Inr r) \<and> subpages_arg int16 subpages = Inl e"
    using that by (auto simp: filter_cmd_def)
  show ?thesis using a b c by blast
qed

theorem filter_paginates_when_selected_witness:
  "pages_arg (\<lambda>s. if s = ''100'' then Some 256 else None) (Some [''100'']) = Inr ({256}, True)
   \<and> subpages_arg (\<lambda>s. if s = ''100'' then Some 256 else None) None = Inr ({0..<0x3f7f}, False)
   \<and> filter_cmd (\<lambda>ps P S. [filter (\<lambda>p. number p \<in> P) ps]) (\<lambda>s. if s = ''100'' then Some 256 else None)
        [\<lparr>array = [], number = 256\<rparr>, \<lparr>array = [], number = 257\<rparr>] (Some [''100'']) None False
      = Inr [\<lparr>array = [], number = 256\<rparr>]
   \<and> filter_cmd (\<lambda>ps P S. [filter (\<lambda>p. number p \<in> P) ps]) (\<lambda>s. if s = ''100'' then Some 256 else None)
        [\<lparr>array = [], number = 256\<rparr>, \<lparr>array = [], number = 257\<rparr>] None (Some []) False
      = Inr [\<lparr>array = [], number = 256\<rparr>, \<lparr>array = [], number = 257\<rparr>]"
proof -
  let ?i = "\<lambda>s. if s = ''100'' then Some (256 :: int) else None"
  let ?pg = "\<lambda>ps P S. [filter (\<lambda>p :: packet. number p \<in> P) ps]"
  let ?ps = "[\<lparr>array = [], number = 256\<rparr>, \<lparr>array = [], number = 257\<rparr>] :: packet list"
  have h: "pages_arg ?i (Some [''100'']) = Inr ({256}, True)
      \<and> subpages_arg ?i None = Inr ({0..<0x3f7f}, False)"
    by (simp add: pages_arg_def subpages_arg_def hex_set_def)
  note t = filter_paginates_when_selected[where ?int16.0 = ?i and pages = "Some [''100'']" and P = "{256}"
      and gp = True and subpages = None and S = "{0..<0x3f7f}" and gs = False
      and pipeline_paginate = ?pg and packets = ?ps and paginate = False,
      THEN conjunct1, rule_format, OF h]
  have h2: "((None :: string list option) = None \<or> (None :: string list option) = Some [])
      \<and> (Some [] = (None :: string list option) \<or> Some [] = (Some [] :: string list option))"
    by simp
  note u = filter_paginates_when_selected[where ?int16.0 = ?i and pages = None and subpages = "Some []"
      and pipeline_paginate = ?pg and packets = ?ps,
      THEN conjunct2, THEN conjunct1, rule_format, OF h2]
  from t have "filter_cmd ?pg ?i ?ps (Some [''100'']) None False = Inr [\<lparr>array = [], number = 256\<rparr>]"
    by simp
  with h u show ?thesis by (simp only: simp_thms)
qed

lemma accepted_snoc:
  "subpage_accepted mrag_of page_of subpage_of pages subpages buf \<Longrightarrow> row (mrag_of p) \<noteq> 0 \<Longrightarrow>
   subpage_accepted mrag_of page_of subpage_of pages subpages (buf @ [p])"
  by (cases buf) (simp_all add: subpage_accepted_def)

lemma accepted_header:
  "row (mrag_of p) = 0 \<Longrightarrow> page_of p \<in> pages \<Longrightarrow> subpage_of p \<in> subpages \<Longrightarrow>
   subpage_accepted mrag_of page_of subpage_of pages subpages [p]"
  by (simp add: subpage_accepted_def)

lemma buffer_put_set:
  "(k, b) \<in> set (buffer_put m buf st) \<Longrightarrow> b = buf \<or> (k, b) \<in> set st"
  unfolding buffer_put_def by (induction st) (auto split: if_splits)

lemma paginate_from_accepted:
  assumes "\<And>k b. (k, b) \<in> set st \<Longrightarrow> subpage_accepted mrag_of page_of subpage_of pages subpages b"
    and "pl \<in> set (paginate_from mrag_of page_of subpage_of pages subpages st ps)"
  shows "subpage_accepted mrag_of page_of subpage_of pages subpages pl"
  using assms
proof (induction ps arbitrary: st)
  case Nil
  then show ?case by auto
next
  case (Cons p ps)
  let ?m = "magazine (mrag_of p)"
  let ?A = "subpage_accepted mrag_of page_of subpage_of pages subpages"
  note inv = Cons.prems(1)
  have cur: "?A buf" if "map_of st ?m = Some buf" for buf
    by (rule inv[OF map_of_SomeD[OF that]])
  show ?case
  proof (cases "row (mrag_of p) = 0")
    case True
    let ?new = "if page_of p \<in> pages \<and> subpage_of p \<in> subpages then [(?m, [p])] else []"
    let ?st = "filter (\<lambda>(k, b). k \<noteq> ?m) st @ ?new"
    have st_ok: "?A b" if "(k, b) \<in> set ?st" for k b
    proof -
      from that consider "(k, b) \<in> set st" | "(k, b) \<in> set ?new" by auto
      then show ?thesis
      proof cases
        case 1 then show ?thesis by (rule inv)
      next
        case 2
        then have "b = [p]" "page_of p \<in> pages" "subpage_of p \<in> subpages"
          by (auto split: if_splits)
        then show ?thesis
          using accepted_header[where mrag_of = mrag_of and p = p and page_of = page_of
              and subpage_of = subpage_of and pages = pages and subpages = subpages] True
          by simp
      qed
    qed
    have eq: "paginate_from mrag_of page_of subpage_of pages subpages st (p # ps) =
        (case map_of st ?m of None \<Rightarrow> [] | Some buf \<Rightarrow> [buf])
        @ paginate_from mrag_of page_of subpage_of pages subpages ?st ps"
      using True by simp
    from Cons.prems(2) consider
      (e) "pl \<in> set (case map_of st ?m of None \<Rightarrow> [] | Some buf \<Rightarrow> [buf])"
      | (r) "pl \<in> set (paginate_from mrag_of page_of subpage_of pages subpages ?st ps)"
      unfolding eq by auto
    then show ?thesis
    proof cases
      case e
      then have "map_of st ?m = Some pl" by (cases "map_of st ?m") simp_all
      then show ?thesis by (rule cur)
    next
      case r
      show ?thesis by (rule Cons.IH[OF st_ok r])
    qed
  next
    case False
    show ?thesis
    proof (cases "1 \<le> row (mrag_of p) \<and> row (mrag_of p) \<le> 25")
      case r: True
      let ?st = "case map_of st ?m of
             None \<Rightarrow> st
           | Some buf \<Rightarrow>
               if list_ex (\<lambda>q. row (mrag_of q) = row (mrag_of p)) buf then st
               else buffer_put ?m (buf @ [p]) st"
      have st_ok: "?A b" if "(k, b) \<in> set ?st" for k b
      proof (cases "map_of st ?m")
        case None
        then show ?thesis using that inv by simp
      next
        case (Some buf)
        show ?thesis
        proof (cases "list_ex (\<lambda>q. row (mrag_of q) = row (mrag_of p)) buf")
          case True
          then show ?thesis using that Some inv by simp
        next
          case n: False
          then have "(k, b) \<in> set (buffer_put ?m (buf @ [p]) st)" using that Some by simp
          from buffer_put_set[OF this] show ?thesis
            using accepted_snoc[where mrag_of = mrag_of and p = p and buf = buf and page_of = page_of
                and subpage_of = subpage_of and pages = pages and subpages = subpages] cur[OF Some] False inv
            by auto
        qed
      qed
      have eq: "paginate_from mrag_of page_of subpage_of pages subpages st (p # ps) =
          paginate_from mrag_of page_of subpage_of pages subpages ?st ps"
        using False r by simp
      from Cons.prems(2) have m: "pl \<in> set (paginate_from mrag_of page_of subpage_of pages subpages ?st ps)"
        unfolding eq .
      show ?thesis by (rule Cons.IH[OF st_ok m])
    next
      case n: False
      have eq: "paginate_from mrag_of page_of subpage_of pages subpages st (p # ps) =
          paginate_from mrag_of page_of subpage_of pages subpages st ps"
        using False n by auto
      from Cons.prems(2) have m: "pl \<in> set (paginate_from mrag_of page_of subpage_of pages subpages st ps)"
        unfolding eq .
      show ?thesis by (rule Cons.IH[OF inv m])
    qed
  qed
qed

lemma paginate_accepted:
  "pl \<in> set (paginate_subpages mrag_of page_of subpage_of packets pages subpages) \<Longrightarrow>
   subpage_accepted mrag_of page_of subpage_of pages subpages pl"
  unfolding paginate_subpages_def by (rule paginate_from_accepted[where st = "[]"]) simp_all

lemma paginate_headers:
  assumes "q \<in> set (concat (paginate_subpages mrag_of page_of subpage_of packets pages subpages))"
    "row (mrag_of q) = 0"
  shows "page_of q \<in> pages \<and> subpage_of q \<in> subpages"
proof -
  from assms(1) obtain pl where pl: "pl \<in> set (paginate_subpages mrag_of page_of subpage_of packets pages subpages)"
    "q \<in> set pl" by auto
  from paginate_accepted[OF pl(1)] obtain h rest where hr: "pl = h # rest" "row (mrag_of h) = 0"
    "page_of h \<in> pages" "subpage_of h \<in> subpages" "list_all (\<lambda>q. row (mrag_of q) \<noteq> 0) rest"
    by (cases pl) (simp_all add: subpage_accepted_def)
  from pl(2) hr(1) have "q = h \<or> q \<in> set rest" by simp
  then show ?thesis using hr assms(2) by (auto simp: list_all_iff)
qed


text \<open>
  C10, as amended. With no pages the accepted pages are \<open>range(0x900)\<close>, with no
  subpages the accepted subpages are \<open>range(0x3f7f)\<close>. \<open>squash\<close> always, and \<open>filter\<close>
  when \<open>-P\<close> is given, hand these sets to \<open>paginate\<close>; \<open>filter\<close> without \<open>-P\<close> does
  not paginate and passes every packet through, whatever its page and subpage. Every
  subpage \<open>paginate\<close> emits begins with a header whose page and subpage are accepted and
  holds no other header; with the default sets, which are half-open, the page key of that
  header is below \<open>0x900\<close> and its subpage below \<open>0x3f7f\<close>. So no header packet with
  subpage \<open>0x3f7f\<close> or with a page key from \<open>0x900\<close> up is in the output of
  \<open>filter -P\<close>, nor in a subpage handed to \<open>subpage_squash\<close>.
\<close>

theorem default_sets_exclude_when_paginating:
  "((pages = None \<or> pages = Some []) \<and> (subpages = None \<or> subpages = Some []) \<longrightarrow>
      pages_arg int16 pages = Inr ({0..<0x900}, False)
      \<and> subpages_arg int16 subpages = Inr ({0..<0x3f7f}, False)
      \<and> filter_cmd pipeline_paginate int16 packets pages subpages True =
          Inr (concat (pipeline_paginate packets {0..<0x900} {0..<0x3f7f}))
      \<and> filter_cmd pipeline_paginate int16 packets pages subpages False = Inr packets
      \<and> squash pipeline_paginate subpage_squash sp_packets int16 packets min_duplicates pages subpages =
          Inr (concat (map sp_packets
                (subpage_squash (pipeline_paginate packets {0..<0x900} {0..<0x3f7f}) min_duplicates)))
      \<and> (\<forall>q \<in> set (concat (paginate_subpages mrag_of page_of subpage_of packets {0..<0x900} {0..<0x3f7f})).
            row (mrag_of q) = 0 \<longrightarrow> page_of q < 0x900 \<and> subpage_of q \<noteq> 0x3f7f)
      \<and> filter_cmd (paginate_subpages mrag_of page_of subpage_of) int16 packets pages subpages True =
          Inr (concat (paginate_subpages mrag_of page_of subpage_of packets {0..<0x900} {0..<0x3f7f})))
   \<and> (\<forall>pl \<in> set (paginate_subpages mrag_of page_of subpage_of packets P S).
         subpage_accepted mrag_of page_of subpage_of P S pl)
   \<and> (\<forall>pl \<in> set (paginate_subpages mrag_of page_of subpage_of packets {0..<0x900} {0..<0x3f7f}).
         pl \<noteq> [] \<and> row (mrag_of (hd pl)) = 0
         \<and> 0 \<le> page_of (hd pl) \<and> page_of (hd pl) < 0x900
         \<and> 0 \<le> subpage_of (hd pl) \<and> subpage_of (hd pl) < 0x3f7f)"
proof -
  let ?pg = "paginate_subpages mrag_of page_of subpage_of"
  have hdr: "page_of q < 0x900 \<and> subpage_of q \<noteq> 0x3f7f"
    if "q \<in> set (concat (?pg packets {0..<0x900} {0..<0x3f7f}))" "row (mrag_of q) = 0" for q
    using paginate_headers[OF that] by simp
  have b: "pages_arg int16 pages = Inr ({0..<0x900}, False)
      \<and> subpages_arg int16 subpages = Inr ({0..<0x3f7f}, False)
      \<and> filter_cmd pipeline_paginate int16 packets pages subpages True =
          Inr (concat (pipeline_paginate packets {0..<0x900} {0..<0x3f7f}))
      \<and> filter_cmd pipeline_paginate int16 packets pages subpages False = Inr packets
      \<and> squash pipeline_paginate subpage_squash sp_packets int16 packets min_duplicates pages subpages =
          Inr (concat (map sp_packets
                (subpage_squash (pipeline_paginate packets {0..<0x900} {0..<0x3f7f}) min_duplicates)))
      \<and> filter_cmd ?pg int16 packets pages subpages True =
          Inr (concat (?pg packets {0..<0x900} {0..<0x3f7f}))"
    if "pages = None \<or> pages = Some []" "subpages = None \<or> subpages = Some []"
    by (simp add: filter_cmd_def squash_def pages_arg_none[OF that(1)] subpages_arg_none[OF that(2)])
  have c: "\<forall>pl \<in> set (?pg packets P S). subpage_accepted mrag_of page_of subpage_of P S pl"
    using paginate_accepted by blast
  have d: "pl \<noteq> [] \<and> row (mrag_of (hd pl)) = 0
         \<and> 0 \<le> page_of (hd pl) \<and> page_of (hd pl) < 0x900
         \<and> 0 \<le> subpage_of (hd pl) \<and> subpage_of (hd pl) < 0x3f7f"
    if "pl \<in> set (?pg packets {0..<0x900} {0..<0x3f7f})" for pl
    using paginate_accepted[OF that] by (cases pl) (simp_all add: subpage_accepted_def)
  show ?thesis using hdr b c d by blast
qed


text \<open>
  Two headers of magazine 1, page key \<open>0x100\<close>, with the subpages \<open>0x3f7e\<close> and
  \<open>0x3f7f\<close>: \<open>filter -P\<close> keeps the first only, \<open>filter\<close> alone keeps both.
\<close>

lemma paginate_example:
  "paginate_subpages (\<lambda>p. \<lparr>magazine = 1, row = 0\<rparr>) (\<lambda>p. 0x100) (\<lambda>p. 0x3f00 + uint (hd (array p)))
      [\<lparr>array = [0x7e], number = 0\<rparr>, \<lparr>array = [0x7f], number = 1\<rparr>] {0..<0x900} {0..<0x3f7f}
   = [[\<lparr>array = [0x7e], number = 0\<rparr>]]"
  by (simp add: paginate_subpages_def)

theorem default_sets_exclude_when_paginating_witness:
  "((None :: string list option) = None \<or> (None :: string list option) = Some [])
   \<and> filter_cmd (paginate_subpages (\<lambda>p. \<lparr>magazine = 1, row = 0\<rparr>) (\<lambda>p. 0x100) (\<lambda>p. 0x3f00 + uint (hd (array p))))
        (\<lambda>s. None) [\<lparr>array = [0x7e], number = 0\<rparr>, \<lparr>array = [0x7f], number = 1\<rparr>] None None True
      = Inr [\<lparr>array = [0x7e], number = 0\<rparr>]
   \<and> filter_cmd (paginate_subpages (\<lambda>p. \<lparr>magazine = 1, row = 0\<rparr>) (\<lambda>p. 0x100) (\<lambda>p. 0x3f00 + uint (hd (array p))))
        (\<lambda>s. None) [\<lparr>array = [0x7e], number = 0\<rparr>, \<lparr>array = [0x7f], number = 1\<rparr>] None None False
      = Inr [\<lparr>array = [0x7e], number = 0\<rparr>, \<lparr>array = [0x7f], number = 1\<rparr>]
   \<and> (0x3f00 + uint (hd (array \<lparr>array = [0x7f], number = 1\<rparr>)) :: int) = 0x3f7f"
proof -
  let ?m = "\<lambda>p :: packet. \<lparr>magazine = 1, row = 0\<rparr>"
  let ?pg = "\<lambda>p :: packet. 0x100 :: int"
  let ?sp = "\<lambda>p :: packet. 0x3f00 + uint (hd (array p))"
  let ?ps = "[\<lparr>array = [0x7e], number = 0\<rparr>, \<lparr>array = [0x7f], number = 1\<rparr>] :: packet list"
  have h: "(None :: string list option) = None \<or> (None :: string list option) = Some []" by simp
  note t = default_sets_exclude_when_paginating[where pages = None and subpages = None
      and ?int16.0 = "\<lambda>s. None" and mrag_of = ?m and page_of = ?pg and subpage_of = ?sp
      and packets = ?ps and pipeline_paginate = "paginate_subpages ?m ?pg ?sp",
      THEN conjunct1, rule_format, OF conjI[OF h h]]
  note a = t[THEN conjunct2, THEN conjunct2, THEN conjunct1]
  note b = t[THEN conjunct2, THEN conjunct2, THEN conjunct2, THEN conjunct1]
  have a': "filter_cmd (paginate_subpages ?m ?pg ?sp) (\<lambda>s. None) ?ps None None True
      = Inr [\<lparr>array = [0x7e], number = 0\<rparr>]"
    unfolding a paginate_example by simp
  have c: "(0x3f00 + uint (hd (array \<lparr>array = [0x7f], number = 1\<rparr>)) :: int) = 0x3f7f" by simp
  show ?thesis by (intro conjI) (rule h a' b c)+
qed

text \<open>
  The claim as stated fails for \<open>filter\<close>: with no page, no subpage and no \<open>-P\<close> a
  header whose subpage is \<open>0x3f7f\<close> is in the output; it is excluded only when \<open>filter\<close>
  paginates.
\<close>

theorem filter_default_keeps_subpage_3f7f:
  "(0x3f00 + uint (hd (array \<lparr>array = [0x7f], number = 0\<rparr>)) :: int) = 0x3f7f
   \<and> filter_cmd (paginate_subpages (\<lambda>p. \<lparr>magazine = 1, row = 0\<rparr>) (\<lambda>p. 0x100) (\<lambda>p. 0x3f00 + uint (hd (array p))))
        (\<lambda>s. None) [\<lparr>array = [0x7f], number = 0\<rparr>] None None False
      = Inr [\<lparr>array = [0x7f], number = 0\<rparr>]
   \<and> filter_cmd (paginate_subpages (\<lambda>p. \<lparr>magazine = 1, row = 0\<rparr>) (\<lambda>p. 0x100) (\<lambda>p. 0x3f00 + uint (hd (array p))))
        (\<lambda>s. None) [\<lparr>array = [0x7f], number = 0\<rparr>] None None True
      = Inr []"
  by (simp add: filter_cmd_def pages_arg_def subpages_arg_def paginate_subpages_def)

section \<open>The \<open>record\<close> loop and the exit of the commands\<close>

lemma chunks_from_size0: "chunks_from inp 0 stop step limit emitted idx = []"
  by (subst chunks_from.simps) simp

lemma length4: "length t = 4 \<Longrightarrow> \<exists>a b c d. t = [a, b, c, d]"
  by (auto simp: length_Suc_conv eval_nat_numeral)

lemma unpack_last4:
  assumes "4 \<le> length chunk"
  shows "unpack_le_u32 (py_last 4 chunk) =
     Inr (uint (chunk ! (length chunk - 4)) + 256 * uint (chunk ! (length chunk - 3))
          + 65536 * uint (chunk ! (length chunk - 2)) + 16777216 * uint (chunk ! (length chunk - 1)))"
proof -
  define pre where "pre = take (length chunk - 4) chunk"
  have "length (py_last 4 chunk) = 4" using assms by (simp add: py_last_def)
  then obtain a b c d where t: "py_last 4 chunk = [a, b, c, d]" using length4 by blast
  have c: "chunk = pre @ [a, b, c, d]"
    unfolding pre_def t[symmetric] py_last_def by simp
  have lp: "length chunk = length pre + 4" by (subst c) simp
  have i: "length chunk - 4 = length pre" "length chunk - 3 = length pre + 1"
    "length chunk - 2 = length pre + 2" "length chunk - 1 = length pre + 3"
    using lp by simp_all
  have n: "chunk ! length pre = a" "chunk ! (length pre + 1) = b"
    "chunk ! (length pre + 2) = c" "chunk ! (length pre + 3) = d"
    using nth_append_length_plus[of pre "[a, b, c, d]" 0]
      nth_append_length_plus[of pre "[a, b, c, d]" 1]
      nth_append_length_plus[of pre "[a, b, c, d]" 2]
      nth_append_length_plus[of pre "[a, b, c, d]" 3] c
    by simp_all
  show ?thesis unfolding i n t by (simp add: unpack_le_u32_def)
qed

lemma frames_length:
  "(n, c) \<in> set (FileChunker device (line_length config * 32) 0 None 1 None) \<Longrightarrow>
     length c = 32 * line_length config"
proof -
  assume "(n, c) \<in> set (FileChunker device (line_length config * 32) 0 None 1 None)"
  then have "(n, c) \<in> set (chunks_from device (line_length config * 32) None 1 None 0 0)"
    by (simp only: FileChunker_def)
  from chunks_from_emitted[OF this] have "length c = line_length config * 32" by (rule conjunct1)
  then show ?thesis by (simp only: mult.commute)
qed

lemma record_step_ok:
  assumes "unpack_le_u32 (py_last 4 chunk) = Inr q"
  shows "record_step s chunk =
     (s\<lparr>written := written s @ chunk,
        dropped := dropped s + (if (\<exists>p. prev_seq s = Some p \<and> q \<noteq> p + 1) then 1 else 0),
        stderr := stderr s @ (if (\<exists>p. prev_seq s = Some p \<and> q \<noteq> p + 1)
                               then ''Frame drop? '' @ py_str (dropped s + 1) @ newline else []),
        prev_seq := Some q\<rparr>, None)"
  using assms by (cases "prev_seq s") (simp_all add: record_step_def Let_def)

lemma record_loop_count:
  "collect (\<lambda>(n, c). unpack_le_u32 (py_last 4 c)) frames = Inr seqs \<Longrightarrow>
   (\<exists>s1. record_loop s (map Item frames) = (s1, None)
      \<and> dropped s1 = dropped s + int (length (filter (\<lambda>(a, b). b \<noteq> a + 1)
            (zip (case prev_seq s of None \<Rightarrow> seqs | Some p \<Rightarrow> p # seqs)
                 (tl (case prev_seq s of None \<Rightarrow> seqs | Some p \<Rightarrow> p # seqs)))))
      \<and> written s1 = written s @ concat (map snd frames))"
proof (induction frames arbitrary: s seqs)
  case Nil
  then show ?case by (cases "prev_seq s") simp_all
next
  case (Cons f frames)
  obtain n c where f: "f = (n, c)" by (cases f)
  from Cons.prems f obtain q qs where q: "unpack_le_u32 (py_last 4 c) = Inr q"
    and qs: "collect (\<lambda>(n, c). unpack_le_u32 (py_last 4 c)) frames = Inr qs" and seqs: "seqs = q # qs"
    by (auto split: sum.splits)
  define s1 where "s1 = fst (record_step s c)"
  have st: "record_step s c = (s1, None)" and ps: "prev_seq s1 = Some q"
    and dr: "dropped s1 = dropped s + (if (\<exists>p. prev_seq s = Some p \<and> q \<noteq> p + 1) then 1 else 0)"
    and wr: "written s1 = written s @ c"
    by (simp_all add: s1_def record_step_ok[OF q])
  from Cons.IH[OF qs, of s1] obtain s2 where s2: "record_loop s1 (map Item frames) = (s2, None)"
    and d2: "dropped s2 = dropped s1 + int (length (filter (\<lambda>(a, b). b \<noteq> a + 1) (zip (q # qs) qs)))"
    and w2: "written s2 = written s1 @ concat (map snd frames)"
    by (auto simp: ps)
  have "record_loop s (map Item (f # frames)) = (s2, None)"
    by (simp add: f st s2)
  moreover have "dropped s2 = dropped s + int (length (filter (\<lambda>(a, b). b \<noteq> a + 1)
            (zip (case prev_seq s of None \<Rightarrow> seqs | Some p \<Rightarrow> p # seqs)
                 (tl (case prev_seq s of None \<Rightarrow> seqs | Some p \<Rightarrow> p # seqs)))))"
    by (cases "prev_seq s") (simp_all add: d2 dr seqs)
  moreover have "written s2 = written s @ concat (map snd (f # frames))"
    by (simp add: w2 wr f)
  ultimately show ?case by blast
qed

lemma frames_decode:
  assumes "0 < line_length config"
  shows "\<exists>seqs. collect (\<lambda>(n, c). unpack_le_u32 (py_last 4 c))
            (FileChunker device (line_length config * 32) 0 None 1 None) = Inr seqs"
proof -
  have "\<exists>y. (\<lambda>(n, c). unpack_le_u32 (py_last 4 c)) x = Inr y"
    if "x \<in> set (FileChunker device (line_length config * 32) 0 None 1 None)" for x
  proof -
    obtain n c where x: "x = (n, c)" by (cases x)
    have "length c = 32 * line_length config" using frames_length that x by blast
    then have "4 \<le> length c" using assms by simp
    from unpack_last4[OF this] show ?thesis by (simp add: x)
  qed
  from collect_all_Inr[of _ "\<lambda>(n, c). unpack_le_u32 (py_last 4 c)", OF this] show ?thesis by blast
qed

lemma unpack_range: "unpack_le_u32 bs = Inr q \<Longrightarrow> 0 \<le> q \<and> q < 2 ^ 32"
proof -
  assume a: "unpack_le_u32 bs = Inr q"
  then obtain b0 b1 b2 b3 where "bs = [b0, b1, b2, b3]"
    and q: "q = uint b0 + 256 * uint b1 + 65536 * uint b2 + 16777216 * uint b3"
    by (auto simp: unpack_le_u32_def split: list.splits)
  have "uint b0 < 256" "uint b1 < 256" "uint b2 < 256" "uint b3 < 256"
    using uint_lt2p[of b0] uint_lt2p[of b1] uint_lt2p[of b2] uint_lt2p[of b3] by simp_all
  moreover have "0 \<le> uint b0" "0 \<le> uint b1" "0 \<le> uint b2" "0 \<le> uint b3" by simp_all
  ultimately show ?thesis unfolding q by simp
qed

lemma record_loop_append:
  "\<forall>(n, c) \<in> set fs. 4 \<le> length c \<Longrightarrow>
     \<exists>s1. record_loop s (map Item fs) = (s1, None) \<and> record_loop s (map Item fs @ rest) = record_loop s1 rest"
proof (induction fs arbitrary: s)
  case Nil then show ?case by simp
next
  case (Cons f fs)
  obtain n c where f: "f = (n, c)" by (cases f)
  have "4 \<le> length c" using Cons.prems f by simp
  from unpack_last4[OF this] obtain q where "unpack_le_u32 (py_last 4 c) = Inr q" by blast
  from record_step_ok[OF this, of s] obtain s1 where st: "record_step s c = (s1, None)" by blast
  have "\<forall>(n, c) \<in> set fs. 4 \<le> length c" using Cons.prems by simp
  from Cons.IH[OF this, of s1] show ?case by (simp add: f st)
qed

lemma frames_ge4:
  assumes "0 < line_length config"
  shows "\<forall>(n, c) \<in> set (FileChunker device (line_length config * 32) 0 None 1 None). 4 \<le> length c"
proof -
  have "4 \<le> length c" if "(n, c) \<in> set (FileChunker device (line_length config * 32) 0 None 1 None)" for n c
    using frames_length[OF that] assms by simp
  then show ?thesis by blast
qed

lemma record_cmd_returns: "snd (record_cmd out device config sigint) = None"
proof (cases "line_length config = 0")
  case True
  then have e: "FileChunker device (line_length config * 32) 0 None 1 None = []"
    by (simp add: FileChunker_def chunks_from_size0)
  show ?thesis
    by (cases sigint) (simp_all only: record_cmd_def Let_def tqdm_def interruptible_def e
        option.case list.map take.simps append.simps record_loop.simps prod.case exn.case snd_conv)
next
  case False
  define frames where "frames = FileChunker device (line_length config * 32) 0 None 1 None"
  define s0 where "s0 = \<lparr>written = out, prev_seq = None, dropped = 0, stderr = []\<rparr>"
  have ge: "\<forall>(n, c) \<in> set frames. 4 \<le> length c"
    unfolding frames_def using frames_ge4 False by simp
  have rc: "record_cmd out device config sg =
      (case record_loop s0 (interruptible sg frames) of
         (s, Some KeyboardInterrupt) \<Rightarrow> (s, None)
       | (s, raised) \<Rightarrow> (s, raised))" for sg
    by (simp only: record_cmd_def Let_def tqdm_def frames_def s0_def)
  show ?thesis
  proof (cases sigint)
    case None
    from record_loop_append[OF ge, of s0 "[]"] obtain s1 where "record_loop s0 (map Item frames) = (s1, None)"
      by blast
    then show ?thesis
      by (simp add: rc interruptible_def None)
  next
    case (Some k)
    have "\<forall>(n, c) \<in> set (take k frames). 4 \<le> length c"
      using ge by (meson in_set_takeD)
    from record_loop_append[OF this, of s0 "[Interrupt]"]
    obtain s1 where "record_loop s0 (map Item (take k frames) @ [Interrupt]) = (s1, Some KeyboardInterrupt)"
      by auto
    then show ?thesis
      by (simp add: rc interruptible_def Some)
  qed
qed

lemma to_file_id: "foldl (\<lambda>ps (attr, o1). ps) evs outputs = evs"
  by (induction outputs) auto

lemma drain_items: "drain (map Item xs) = Inr ()"
  by (induction xs) simp_all

lemma drain_interrupt: "drain (map Item xs @ Interrupt # rest) = Inl KeyboardInterrupt"
  by (induction xs) simp_all

lemma chunkreader_tty:
  "isatty inp \<Longrightarrow> chunkreader f inp start stop step limit progress kwargs =
     Inl (UsageError ''No input file and stdin is a tty - exiting.'')"
  by (simp add: chunkreader_def)

lemma packetreader_tty:
  "isatty inp \<Longrightarrow>
     packetreader mrag_of f inp start stop step limit wst mags rows progress mag_hist row_hist err_hist kwargs =
     Inl (UsageError ''No input file and stdin is a tty - exiting.'')"
  by (simp add: packetreader_def chunkreader_tty)

text \<open>
  C5. \<open>record\<close> reads frames of 32 lines of \<open>line_length\<close> bytes; the last four bytes
  of a frame are decoded as an unsigned 32-bit number, least significant byte first; and a
  frame raises the count of drops by one exactly when there is a previous frame and the
  number differs from the previous number plus one (the count is unchanged otherwise, and
  for the first frame). Over a whole recording the count is the number of adjacent frames
  whose numbers are not consecutive.
\<close>

theorem record_frame_drops:
  "(\<forall>(n, c) \<in> set (FileChunker device (line_length config * 32) 0 None 1 None).
       length c = 32 * line_length config)
   \<and> (4 \<le> length chunk \<longrightarrow>
        unpack_le_u32 (py_last 4 chunk) =
          Inr (uint (chunk ! (length chunk - 4)) + 256 * uint (chunk ! (length chunk - 3))
               + 65536 * uint (chunk ! (length chunk - 2)) + 16777216 * uint (chunk ! (length chunk - 1))))
   \<and> (unpack_le_u32 (py_last 4 chunk) = Inr q \<longrightarrow>
        0 \<le> q \<and> q < 2 ^ 32
        \<and> snd (record_step s chunk) = None
        \<and> prev_seq (fst (record_step s chunk)) = Some q
        \<and> written (fst (record_step s chunk)) = written s @ chunk
        \<and> dropped (fst (record_step s chunk)) =
            dropped s + (if (\<exists>p. prev_seq s = Some p \<and> q \<noteq> p + 1) then 1 else 0))
   \<and> (0 < line_length config \<longrightarrow>
        (\<exists>seqs s1.
           collect (\<lambda>(n, c). unpack_le_u32 (py_last 4 c))
             (FileChunker device (line_length config * 32) 0 None 1 None) = Inr seqs
           \<and> record_cmd out device config None = (s1, None)
           \<and> dropped s1 = int (length (filter (\<lambda>(a, b). b \<noteq> a + 1) (zip seqs (tl seqs))))
           \<and> written s1 = out @ concat (map snd (FileChunker device (line_length config * 32) 0 None 1 None))))"
proof -
  have a: "\<forall>(n, c) \<in> set (FileChunker device (line_length config * 32) 0 None 1 None).
       length c = 32 * line_length config"
    using frames_length by blast
  have b: "0 \<le> q \<and> q < 2 ^ 32
        \<and> snd (record_step s chunk) = None
        \<and> prev_seq (fst (record_step s chunk)) = Some q
        \<and> written (fst (record_step s chunk)) = written s @ chunk
        \<and> dropped (fst (record_step s chunk)) =
            dropped s + (if (\<exists>p. prev_seq s = Some p \<and> q \<noteq> p + 1) then 1 else 0)"
    if h: "unpack_le_u32 (py_last 4 chunk) = Inr q"
    using unpack_range[OF h] by (simp add: record_step_ok[OF h])
  have c: "\<exists>seqs s1.
           collect (\<lambda>(n, c). unpack_le_u32 (py_last 4 c))
             (FileChunker device (line_length config * 32) 0 None 1 None) = Inr seqs
           \<and> record_cmd out device config None = (s1, None)
           \<and> dropped s1 = int (length (filter (\<lambda>(a, b). b \<noteq> a + 1) (zip seqs (tl seqs))))
           \<and> written s1 = out @ concat (map snd (FileChunker device (line_length config * 32) 0 None 1 None))"
    if h: "0 < line_length config"
  proof -
    define frames where "frames = FileChunker device (line_length config * 32) 0 None 1 None"
    define s0 where "s0 = \<lparr>written = out, prev_seq = None, dropped = 0, stderr = []\<rparr>"
    from frames_decode[OF h] obtain seqs where
      sq: "collect (\<lambda>(n, c). unpack_le_u32 (py_last 4 c)) frames = Inr seqs"
      unfolding frames_def by blast
    from record_loop_count[OF sq, of s0] obtain s1 where
      l: "record_loop s0 (map Item frames) = (s1, None)"
      and d: "dropped s1 = int (length (filter (\<lambda>(a, b). b \<noteq> a + 1) (zip seqs (tl seqs))))"
      and w: "written s1 = out @ concat (map snd frames)"
      by (auto simp: s0_def)
    have "record_cmd out device config None =
      (case record_loop s0 (interruptible None frames) of
         (s, Some KeyboardInterrupt) \<Rightarrow> (s, None)
       | (s, raised) \<Rightarrow> (s, raised))"
      by (simp only: record_cmd_def Let_def tqdm_def frames_def s0_def)
    then have "record_cmd out device config None = (s1, None)"
      by (simp add: interruptible_def l)
    with sq d w show ?thesis unfolding frames_def by blast
  qed
  show ?thesis using a unpack_last4 b c by blast
qed

lemma record_example:
  "record_cmd [] (replicate 28 0 @ [5, 0, 0, 0] @ replicate 28 0 @ [6, 0, 0, 0] @ replicate 28 0 @ [9, 1, 0, 0])
      \<lparr>line_length = 1\<rparr> None
   = (\<lparr>written = replicate 28 0 @ [5, 0, 0, 0] @ replicate 28 0 @ [6, 0, 0, 0] @ replicate 28 0 @ [9, 1, 0, 0],
       prev_seq = Some 265, dropped = 1, stderr = ''Frame drop? 1'' @ newline\<rparr>, None)"
  by code_simp

theorem record_frame_drops_witness:
  "0 < line_length \<lparr>line_length = 1\<rparr>
   \<and> (4 :: nat) \<le> length [5, 0, 0, 0 :: byte]
   \<and> unpack_le_u32 (py_last 4 [5, 0, 0, 0]) = Inr 5
   \<and> dropped (fst (record_step \<lparr>written = [], prev_seq = Some 3, dropped = 0, stderr = []\<rparr> [5, 0, 0, 0])) = 1
   \<and> dropped (fst (record_step \<lparr>written = [], prev_seq = Some 4, dropped = 0, stderr = []\<rparr> [5, 0, 0, 0])) = 0
   \<and> dropped (fst (record_cmd []
        (replicate 28 0 @ [5, 0, 0, 0] @ replicate 28 0 @ [6, 0, 0, 0] @ replicate 28 0 @ [9, 1, 0, 0])
        \<lparr>line_length = 1\<rparr> None)) = 1"
proof -
  let ?dev = "replicate 28 0 @ [5, 0, 0, 0] @ replicate 28 0 @ [6, 0, 0, 0] @ replicate 28 0 @ [9, 1, 0, 0 :: byte]"
  let ?cfg = "\<lparr>line_length = 1\<rparr>"
  have h1: "0 < line_length ?cfg" by simp
  have h2: "(4 :: nat) \<le> length [5, 0, 0, 0 :: byte]" by simp
  have h3: "unpack_le_u32 (py_last 4 [5, 0, 0, 0]) = Inr 5"
    using record_frame_drops[where chunk = "[5, 0, 0, 0]", THEN conjunct2, THEN conjunct1, rule_format, OF h2]
    by simp
  note st = record_frame_drops[where chunk = "[5, 0, 0, 0]" and q = 5,
      THEN conjunct2, THEN conjunct2, THEN conjunct1, rule_format, OF h3]
  have d1: "dropped (fst (record_step \<lparr>written = [], prev_seq = Some 3, dropped = 0, stderr = []\<rparr> [5, 0, 0, 0])) = 1"
    using st[where s = "\<lparr>written = [], prev_seq = Some 3, dropped = 0, stderr = []\<rparr>"] by simp
  have d2: "dropped (fst (record_step \<lparr>written = [], prev_seq = Some 4, dropped = 0, stderr = []\<rparr> [5, 0, 0, 0])) = 0"
    using st[where s = "\<lparr>written = [], prev_seq = Some 4, dropped = 0, stderr = []\<rparr>"] by simp
  have d3: "dropped (fst (record_cmd [] ?dev ?cfg None)) = 1"
    by (simp only: record_example fst_conv rec_state.simps)
  show ?thesis using h1 h2 h3 d1 d2 d3 by (simp only: simp_thms)
qed

lemma packetwriter_pass:
  "(\<forall>pr. f pr kw = Inr packets) \<Longrightarrow>
     packetwriter (\<lambda>ps o1 attr. ps) f sigint outputs progress kw = drain (interruptible sigint packets)"
  by (simp add: packetwriter_def Let_def to_file_id)

lemma FileChunker_42: "FileChunker (replicate 42 0) 42 0 None 1 None = [(0, replicate 42 0)]"
  by code_simp

lemma filter_stream:
  "packetreader (\<lambda>p. \<lparr>magazine = 1, row = 0\<rparr>)
          (\<lambda>packets kw. filter_cmd (\<lambda>ps P S. [ps]) (\<lambda>s. None) packets None None False)
          \<lparr>isatty = False, is_fifo = False, contents = replicate 42 0\<rparr> 0 None 1 None False
          [0, 1, 2, 3, 4, 5, 6, 7, 8] [0] pr None None None ()
   = Inr [\<lparr>array = replicate 42 0, number = 0\<rparr>]"
proof -
  have m: "make_packets (reader_chunks (\<lambda>chunk_size. FileChunker (replicate 42 0) chunk_size 0 None 1 None) False)
      = Inr [\<lparr>array = replicate 42 0, number = 0\<rparr>]"
    unfolding reader_chunks_def if_False FileChunker_42
    by (simp add: make_packets_def chunk_tuple_def unpack2_def Packet_def)
  have f: "filter_cmd (\<lambda>ps P S. [ps]) (\<lambda>s. None) packets None None False = Inr packets" for packets
    by (simp add: filter_cmd_def pages_arg_def subpages_arg_def)
  show ?thesis
    unfolding packetreader_def chunkreader_def
    by (simp only: input_file.simps if_False Let_def option.case packetreader_wrapper_eq m f sum.case)
      (simp add: truthy_def)
qed

text \<open>
  C8, as amended. \<open>record\<close> returns normally at the end of the stream and when
  Ctrl-C is pressed while it reads frames (it swallows the \<open>KeyboardInterrupt\<close>), so the
  runner exits with code 0. Every command that reads chunks fails with a usage error when
  its input is a terminal, before the command or the chunker runs, and the runner exits
  with code 2. A command that writes packets returns normally at the end of its stream
  (code 0); interrupted, it has no handler: the \<open>KeyboardInterrupt\<close> leaves the command
  and the runner exits with code 1.
\<close>

theorem exit_on_interrupt_and_tty:
  "snd (record_cmd out device config sigint) = None
   \<and> click_exit (snd (record_cmd out device config sigint)) = 0
   \<and> (isatty inp \<longrightarrow>
        chunkreader f inp start stop step limit progress kwargs =
          Inl (UsageError ''No input file and stdin is a tty - exiting.'')
        \<and> packetreader mrag_of f2 inp start stop step limit wst mags rows progress2 mag_hist row_hist err_hist kwargs2 =
          Inl (UsageError ''No input file and stdin is a tty - exiting.'')
        \<and> click_exit (raised_by (chunkreader f inp start stop step limit progress kwargs)) = 2)
   \<and> ((\<forall>pr. f3 pr kwargs3 = Inr packets) \<longrightarrow>
        packetwriter (\<lambda>ps o1 attr. ps) f3 None outputs progress3 kwargs3 = Inr ()
        \<and> click_exit (raised_by (packetwriter (\<lambda>ps o1 attr. ps) f3 None outputs progress3 kwargs3)) = 0
        \<and> packetwriter (\<lambda>ps o1 attr. ps) f3 (Some k) outputs progress3 kwargs3 = Inl KeyboardInterrupt
        \<and> click_exit (raised_by (packetwriter (\<lambda>ps o1 attr. ps) f3 (Some k) outputs progress3 kwargs3)) = 1)"
proof -
  have a: "snd (record_cmd out device config sigint) = None" by (rule record_cmd_returns)
  have b: "click_exit (snd (record_cmd out device config sigint)) = 0"
    by (simp add: a click_exit_def)
  have c: "chunkreader f inp start stop step limit progress kwargs =
          Inl (UsageError ''No input file and stdin is a tty - exiting.'')
        \<and> packetreader mrag_of f2 inp start stop step limit wst mags rows progress2 mag_hist row_hist err_hist kwargs2 =
          Inl (UsageError ''No input file and stdin is a tty - exiting.'')
        \<and> click_exit (raised_by (chunkreader f inp start stop step limit progress kwargs)) = 2"
    if "isatty inp"
    by (simp add: chunkreader_tty[OF that] packetreader_tty[OF that] click_exit_def raised_by_def)
  have d: "packetwriter (\<lambda>ps o1 attr. ps) f3 None outputs progress3 kwargs3 = Inr ()
        \<and> click_exit (raised_by (packetwriter (\<lambda>ps o1 attr. ps) f3 None outputs progress3 kwargs3)) = 0
        \<and> packetwriter (\<lambda>ps o1 attr. ps) f3 (Some k) outputs progress3 kwargs3 = Inl KeyboardInterrupt
        \<and> click_exit (raised_by (packetwriter (\<lambda>ps o1 attr. ps) f3 (Some k) outputs progress3 kwargs3)) = 1"
    if "\<forall>pr. f3 pr kwargs3 = Inr packets"
    by (simp add: packetwriter_def Let_def that to_file_id interruptible_def drain_items
        drain_interrupt click_exit_def raised_by_def)
  show ?thesis using a b c d by blast
qed

theorem exit_on_interrupt_and_tty_witness:
  "isatty \<lparr>isatty = True, is_fifo = False, contents = []\<rparr>
   \<and> chunkreader (\<lambda>chunker progress kwargs. Inr (chunker 42))
        \<lparr>isatty = True, is_fifo = False, contents = []\<rparr> 0 None 1 None None ()
      = Inl (UsageError ''No input file and stdin is a tty - exiting.'')
   \<and> packetwriter (\<lambda>ps o1 attr. ps) (\<lambda>pr kw. Inr [1 :: nat, 2]) (Some 1) [] None () = Inl KeyboardInterrupt
   \<and> packetwriter (\<lambda>ps o1 attr. ps) (\<lambda>pr kw. Inr [1 :: nat, 2]) None [] None () = Inr ()
   \<and> snd (record_cmd [] (replicate 32 7) \<lparr>line_length = 1\<rparr> (Some 0)) = None"
proof -
  have h: "isatty \<lparr>isatty = True, is_fifo = False, contents = []\<rparr>" by simp
  note t = exit_on_interrupt_and_tty[where inp = "\<lparr>isatty = True, is_fifo = False, contents = []\<rparr>"
      and f = "\<lambda>chunker progress kwargs. Inr (chunker 42)" and start = 0 and stop = None and step = 1
      and limit = None and progress = None and kwargs = "()"
      and ?f3.0 = "\<lambda>pr kw. Inr [1 :: nat, 2]" and ?kwargs3.0 = "()" and packets = "[1, 2]"
      and outputs = "[]" and ?progress3.0 = None and k = 1
      and out = "[]" and device = "replicate 32 7" and config = "\<lparr>line_length = 1\<rparr>" and sigint = "Some 0"]
  have h2: "\<forall>pr. (\<lambda>pr kw. Inr [1 :: nat, 2] :: exn + nat list) pr () = Inr [1, 2]" by simp
  note a = t[THEN conjunct1]
  note b = t[THEN conjunct2, THEN conjunct2, THEN conjunct1, rule_format, OF h, THEN conjunct1]
  note c = t[THEN conjunct2, THEN conjunct2, THEN conjunct2, THEN mp, OF h2]
  note c1 = c[THEN conjunct1]
  note c2 = c[THEN conjunct2, THEN conjunct2, THEN conjunct1]
  show ?thesis by (intro conjI) (rule h a b c1 c2)+
qed

text \<open>
  The claim as stated fails for \<open>filter\<close>: interrupted after its first packet, the command
  ends with \<open>KeyboardInterrupt\<close> and the exit code is not 0.
\<close>

theorem interrupt_exit_counterexample:
  "packetwriter (\<lambda>ps o1 attr. ps)
     (\<lambda>progress kwargs.
        packetreader (\<lambda>p. \<lparr>magazine = 1, row = 0\<rparr>)
          (\<lambda>packets kw. filter_cmd (\<lambda>ps P S. [ps]) (\<lambda>s. None) packets None None False)
          \<lparr>isatty = False, is_fifo = False, contents = replicate 42 0\<rparr> 0 None 1 None False
          [0, 1, 2, 3, 4, 5, 6, 7, 8] [0] (case progress of None \<Rightarrow> None | Some p \<Rightarrow> p) None None None kwargs)
     (Some 1) [(''auto'', \<lparr>o_isatty = False\<rparr>)] (Some None) ()
   = Inl KeyboardInterrupt
   \<and> click_exit (raised_by (Inl KeyboardInterrupt :: exn + unit)) \<noteq> 0"
proof -
  let ?f = "\<lambda>progress kwargs.
        packetreader (\<lambda>p. \<lparr>magazine = 1, row = 0\<rparr>)
          (\<lambda>packets kw. filter_cmd (\<lambda>ps P S. [ps]) (\<lambda>s. None) packets None None False)
          \<lparr>isatty = False, is_fifo = False, contents = replicate 42 0\<rparr> 0 None 1 None False
          [0, 1, 2, 3, 4, 5, 6, 7, 8] [0] (case progress of None \<Rightarrow> None | Some p \<Rightarrow> p) None None None kwargs"
  have "\<forall>pr. ?f pr () = Inr [\<lparr>array = replicate 42 0, number = 0\<rparr>]"
    by (simp only: filter_stream simp_thms)
  from packetwriter_pass[where f = ?f and kw = "()", OF this]
  have "packetwriter (\<lambda>ps o1 attr. ps) ?f (Some 1) [(''auto'', \<lparr>o_isatty = False\<rparr>)] (Some None) ()
     = drain (interruptible (Some 1) [\<lparr>array = replicate 42 0, number = 0\<rparr>])"
    by simp
  also have "\<dots> = Inl KeyboardInterrupt" by (simp add: interruptible_def)
  finally show ?thesis by (simp add: click_exit_def raised_by_def)
qed

end
